theory Spec2Isabelle
  imports Main "HOL-Library.Word"
begin

unbundle bit_operations_syntax

section \<open>Bytes and slices\<close>

text \<open>A \<open>Slice\<close> and a \<open>std::string\<close> are both sequences of bytes; the model uses
  lists of 8-bit words for them.  A \<open>const char*\<close> into a buffer is the list of the
  bytes from that position on.\<close>

type_synonym byte = "8 word"
type_synonym bytes = "byte list"

section \<open>util/coding: fixed-width and varint codecs\<close>

text \<open>\<open>EncodeFixed32\<close> / \<open>EncodeFixed64\<close>: both branches of the source (the
  \<open>memcpy\<close> on a little-endian host, the explicit shifts otherwise) produce the
  little-endian bytes.\<close>

definition EncodeFixed32 :: "32 word \<Rightarrow> bytes" where
  "EncodeFixed32 v =
     [ucast (v AND 0xff), ucast (drop_bit 8 v AND 0xff),
      ucast (drop_bit 16 v AND 0xff), ucast (drop_bit 24 v AND 0xff)]"

definition EncodeFixed64 :: "64 word \<Rightarrow> bytes" where
  "EncodeFixed64 v =
     [ucast (v AND 0xff), ucast (drop_bit 8 v AND 0xff),
      ucast (drop_bit 16 v AND 0xff), ucast (drop_bit 24 v AND 0xff),
      ucast (drop_bit 32 v AND 0xff), ucast (drop_bit 40 v AND 0xff),
      ucast (drop_bit 48 v AND 0xff), ucast (drop_bit 56 v AND 0xff)]"

definition PutFixed32 :: "bytes \<Rightarrow> 32 word \<Rightarrow> bytes" where
  "PutFixed32 dst v = dst @ EncodeFixed32 v"

definition PutFixed64 :: "bytes \<Rightarrow> 64 word \<Rightarrow> bytes" where
  "PutFixed64 dst v = dst @ EncodeFixed64 v"

definition DecodeFixed32 :: "bytes \<Rightarrow> 32 word" where
  "DecodeFixed32 ptr =
     (ucast (ptr ! 0)) OR push_bit 8 (ucast (ptr ! 1))
       OR push_bit 16 (ucast (ptr ! 2)) OR push_bit 24 (ucast (ptr ! 3))"

definition DecodeFixed64 :: "bytes \<Rightarrow> 64 word" where
  "DecodeFixed64 ptr =
     (let lo = (ucast (DecodeFixed32 ptr) :: 64 word);
          hi = (ucast (DecodeFixed32 (drop 4 ptr)) :: 64 word)
      in push_bit 32 hi OR lo)"

text \<open>\<open>EncodeVarint64\<close>: the \<open>while (v >= B)\<close> loop, seven bits per byte.\<close>

function EncodeVarint64 :: "64 word \<Rightarrow> bytes" where
  "EncodeVarint64 v =
     (if v \<ge> 128 then ucast ((v AND 127) OR 128) # EncodeVarint64 (drop_bit 7 v)
      else [ucast v])"
  by pat_completeness auto
termination
proof (relation "measure unat")
  show "wf (measure (unat :: 64 word \<Rightarrow> nat))" by simp
next
  fix v :: "64 word"
  assume "128 \<le> v"
  then have "0 < unat v" by (simp add: word_le_nat_alt)
  then have "unat v div 2 ^ 7 < unat v" by simp
  moreover have "unat (drop_bit 7 v) = unat v div 2 ^ 7"
    by (metis unat_drop_bit_eq drop_bit_eq_div)
  ultimately show "(drop_bit 7 v, v) \<in> measure unat"
    by simp
qed

declare EncodeVarint64.simps [simp del]

definition PutVarint64 :: "bytes \<Rightarrow> 64 word \<Rightarrow> bytes" where
  "PutVarint64 dst v = dst @ EncodeVarint64 v"

text \<open>\<open>GetVarint64Ptr\<close>: the argument is the bytes from \<open>p\<close> up to \<open>limit\<close>; the
  result is \<open>None\<close> for the \<open>NULL\<close> return, otherwise the value and the bytes from the
  returned pointer on.\<close>

fun GetVarint64Ptr_loop :: "nat \<Rightarrow> 64 word \<Rightarrow> bytes \<Rightarrow> (64 word \<times> bytes) option" where
  "GetVarint64Ptr_loop shift result [] = None"
| "GetVarint64Ptr_loop shift result (b # p) =
     (if shift \<le> 63 then
        (let byte = (ucast b :: 64 word) in
         if byte AND 128 \<noteq> 0
         then GetVarint64Ptr_loop (shift + 7) (result OR push_bit shift (byte AND 127)) p
         else Some (result OR push_bit shift byte, p))
      else None)"

definition GetVarint64Ptr :: "bytes \<Rightarrow> (64 word \<times> bytes) option" where
  "GetVarint64Ptr p = GetVarint64Ptr_loop 0 0 p"

text \<open>\<open>GetVarint64\<close>: \<open>None\<close> is the \<open>false\<close> return (the input slice is left alone);
  otherwise the value and the advanced input slice.\<close>

definition GetVarint64 :: "bytes \<Rightarrow> (64 word \<times> bytes) option" where
  "GetVarint64 input =
     (case GetVarint64Ptr input of None \<Rightarrow> None | Some (v, q) \<Rightarrow> Some (v, q))"

text \<open>\<open>EncodeVarint32\<close>: the five cases of the source, in its order.  A store into
  \<open>unsigned char\<close> keeps the low eight bits.\<close>

definition EncodeVarint32 :: "32 word \<Rightarrow> bytes" where
  "EncodeVarint32 v =
     (if v < push_bit 7 1 then [ucast v]
      else if v < push_bit 14 1 then [ucast (v OR 128), ucast (drop_bit 7 v)]
      else if v < push_bit 21 1 then
        [ucast (v OR 128), ucast (drop_bit 7 v OR 128), ucast (drop_bit 14 v)]
      else if v < push_bit 28 1 then
        [ucast (v OR 128), ucast (drop_bit 7 v OR 128), ucast (drop_bit 14 v OR 128),
         ucast (drop_bit 21 v)]
      else
        [ucast (v OR 128), ucast (drop_bit 7 v OR 128), ucast (drop_bit 14 v OR 128),
         ucast (drop_bit 21 v OR 128), ucast (drop_bit 28 v)])"

definition PutVarint32 :: "bytes \<Rightarrow> 32 word \<Rightarrow> bytes" where
  "PutVarint32 dst v = dst @ EncodeVarint32 v"

text \<open>\<open>VarintLength\<close>.\<close>

function VarintLength_loop :: "64 word \<Rightarrow> nat \<Rightarrow> nat" where
  "VarintLength_loop v len =
     (if v \<ge> 128 then VarintLength_loop (drop_bit 7 v) (len + 1) else len)"
  by pat_completeness auto
termination
proof (relation "measure (\<lambda>(v, len). unat v)")
  show "wf (measure (\<lambda>(v :: 64 word, len :: nat). unat v))" by simp
next
  fix v :: "64 word" and len :: nat
  assume "128 \<le> v"
  then have "0 < unat v" by (simp add: word_le_nat_alt)
  then have "unat v div 2 ^ 7 < unat v" by simp
  moreover have "unat (drop_bit 7 v) = unat v div 2 ^ 7"
    by (metis unat_drop_bit_eq drop_bit_eq_div)
  ultimately show "((drop_bit 7 v, len + 1), (v, len)) \<in> measure (\<lambda>(v, len). unat v)"
    by simp
qed

declare VarintLength_loop.simps [simp del]

definition VarintLength :: "64 word \<Rightarrow> nat" where
  "VarintLength v = VarintLength_loop v 1"

text \<open>\<open>GetVarint32PtrFallback\<close> and the inline fast path \<open>GetVarint32Ptr\<close>.  The
  argument is the bytes from \<open>p\<close> up to \<open>limit\<close>; \<open>None\<close> is the \<open>NULL\<close> return.\<close>

fun GetVarint32PtrFallback_loop :: "nat \<Rightarrow> 32 word \<Rightarrow> bytes \<Rightarrow> (32 word \<times> bytes) option" where
  "GetVarint32PtrFallback_loop shift result [] = None"
| "GetVarint32PtrFallback_loop shift result (b # p) =
     (if shift \<le> 28 then
        (let byte = (ucast b :: 32 word) in
         if byte AND 128 \<noteq> 0
         then GetVarint32PtrFallback_loop (shift + 7) (result OR push_bit shift (byte AND 127)) p
         else Some (result OR push_bit shift byte, p))
      else None)"

definition GetVarint32PtrFallback :: "bytes \<Rightarrow> (32 word \<times> bytes) option" where
  "GetVarint32PtrFallback p = GetVarint32PtrFallback_loop 0 0 p"

definition GetVarint32Ptr :: "bytes \<Rightarrow> (32 word \<times> bytes) option" where
  "GetVarint32Ptr p =
     (case p of
        [] \<Rightarrow> GetVarint32PtrFallback p
      | b # q \<Rightarrow>
          (let result = (ucast b :: 32 word) in
           if result AND 128 = 0 then Some (result, q) else GetVarint32PtrFallback p))"

section \<open>util/status\<close>

datatype Status = OK | NotFound string | Corruption string | NotSupported string
  | InvalidArgument string | IOError string

definition ok :: "Status \<Rightarrow> bool" where
  "ok s = (s = OK)"

section \<open>table/format: block handles and the footer\<close>

record BlockHandle =
  h_offset :: "64 word"
  h_size :: "64 word"

definition kMaxEncodedLength :: nat where
  "kMaxEncodedLength = 10 + 10"

definition kEncodedLength :: nat where
  "kEncodedLength = 2 * kMaxEncodedLength + 8"

definition kTableMagicNumber :: "64 word" where
  "kTableMagicNumber = 0xdb4775248b80fb57"

text \<open>\<open>BlockHandle::EncodeTo\<close>.  The two assertions of the source (neither field is
  \<open>~0\<close>, the value of a default-constructed handle) are not part of the function's
  result and are left out.\<close>

definition BlockHandle_EncodeTo :: "bytes \<Rightarrow> BlockHandle \<Rightarrow> bytes" where
  "BlockHandle_EncodeTo dst h = PutVarint64 (PutVarint64 dst (h_offset h)) (h_size h)"

text \<open>\<open>BlockHandle::DecodeFrom\<close> returns the status, the handle as the call leaves it and
  the input slice as the call leaves it (a failed second varint leaves the first field set
  and the input advanced past it).\<close>

definition BlockHandle_DecodeFrom :: "BlockHandle \<Rightarrow> bytes \<Rightarrow> Status \<times> BlockHandle \<times> bytes" where
  "BlockHandle_DecodeFrom h input =
     (case GetVarint64 input of
        None \<Rightarrow> (Corruption ''bad block handle'', h, input)
      | Some (off, input1) \<Rightarrow>
          (case GetVarint64 input1 of
             None \<Rightarrow> (Corruption ''bad block handle'', h\<lparr>h_offset := off\<rparr>, input1)
           | Some (sz, input2) \<Rightarrow> (OK, h\<lparr>h_offset := off, h_size := sz\<rparr>, input2)))"

record Footer =
  metaindex_handle :: BlockHandle
  index_handle :: BlockHandle

text \<open>\<open>std::string::resize(n)\<close>: cut to \<open>n\<close> bytes or pad with zero bytes.\<close>

definition resize :: "nat \<Rightarrow> bytes \<Rightarrow> bytes" where
  "resize n s = take n s @ replicate (n - length s) 0"

definition Footer_EncodeTo :: "bytes \<Rightarrow> Footer \<Rightarrow> bytes" where
  "Footer_EncodeTo dst f =
     (let dst1 = BlockHandle_EncodeTo dst (metaindex_handle f);
          dst2 = BlockHandle_EncodeTo dst1 (index_handle f);
          dst3 = resize (2 * kMaxEncodedLength) dst2;
          dst4 = PutFixed32 dst3 (ucast (kTableMagicNumber AND 0xffffffff));
          dst5 = PutFixed32 dst4 (ucast (drop_bit 32 kTableMagicNumber))
      in dst5)"

text \<open>\<open>Footer::DecodeFrom\<close> returns the status, the footer and the input slice as the call
  leaves them.  On success the input is repositioned just past the magic number.\<close>

definition Footer_DecodeFrom :: "Footer \<Rightarrow> bytes \<Rightarrow> Status \<times> Footer \<times> bytes" where
  "Footer_DecodeFrom f input =
     (let magic_ptr = drop (kEncodedLength - 8) input;
          magic_lo = DecodeFixed32 magic_ptr;
          magic_hi = DecodeFixed32 (drop 4 magic_ptr);
          magic = push_bit 32 (ucast magic_hi :: 64 word) OR (ucast magic_lo :: 64 word)
      in if magic \<noteq> kTableMagicNumber
         then (Corruption ''not an sstable (bad magic number)'', f, input)
         else
           (case BlockHandle_DecodeFrom (metaindex_handle f) input of
              (result, mh, input1) \<Rightarrow>
                (if ok result then
                   (case BlockHandle_DecodeFrom (index_handle f) input1 of
                      (result2, ih, input2) \<Rightarrow>
                        (if ok result2
                         then (result2, f\<lparr>metaindex_handle := mh, index_handle := ih\<rparr>,
                               drop kEncodedLength input)
                         else (result2, f\<lparr>metaindex_handle := mh, index_handle := ih\<rparr>,
                               input2)))
                 else (result, f\<lparr>metaindex_handle := mh\<rparr>, input1))))"

section \<open>Slices and the bytewise comparator\<close>

text \<open>\<open>memcmp\<close> over the first \<open>n\<close> bytes of two buffers.  C fixes only the sign of
  its result; the model returns what the byte-wise implementation returns, the difference
  of the first two bytes that differ, read as \<open>unsigned char\<close>.  \<open>Slice::compare\<close> hands
  that number on unchanged.\<close>

fun memcmp :: "bytes \<Rightarrow> bytes \<Rightarrow> nat \<Rightarrow> int" where
  "memcmp (x # xs) (y # ys) (Suc n) =
     (if x \<noteq> y then int (unat x) - int (unat y) else memcmp xs ys n)"
| "memcmp _ _ _ = 0"

definition Slice_compare :: "bytes \<Rightarrow> bytes \<Rightarrow> int" where
  "Slice_compare a b =
     (let min_len = (if length a < length b then length a else length b);
          r = memcmp a b min_len
      in if r = 0 then
           (if length a < length b then -1 else if length a > length b then 1 else r)
         else r)"

definition BytewiseComparator :: "bytes \<Rightarrow> bytes \<Rightarrow> int" where
  "BytewiseComparator a b = Slice_compare a b"

section \<open>db/dbformat: internal keys\<close>

text \<open>The user comparator is a collaborator: a three-way comparison on user keys.\<close>

type_synonym comparator = "bytes \<Rightarrow> bytes \<Rightarrow> int"

text \<open>Modelled from the spec: \<open>ExtractUserKey\<close> is declared in db/dbformat.h, which is
  not among the sources.  An internal key is the user key followed by the 8-byte tag, so the
  user key is the internal key without its last 8 bytes.\<close>

definition ExtractUserKey :: "bytes \<Rightarrow> bytes" where
  "ExtractUserKey internal_key = take (length internal_key - 8) internal_key"

text \<open>The packed tag \<open>(sequence << 8) | type\<close> stored in the last 8 bytes of an internal
  key, as \<open>InternalKeyComparator::Compare\<close> reads it, and its two components.\<close>

definition tag_of :: "bytes \<Rightarrow> 64 word" where
  "tag_of k = DecodeFixed64 (drop (length k - 8) k)"

definition sequence_of :: "bytes \<Rightarrow> 64 word" where
  "sequence_of k = drop_bit 8 (tag_of k)"

definition type_of :: "bytes \<Rightarrow> 64 word" where
  "type_of k = tag_of k AND 0xff"

definition InternalKeyComparator_Compare :: "comparator \<Rightarrow> bytes \<Rightarrow> bytes \<Rightarrow> int" where
  "InternalKeyComparator_Compare user_comparator akey bkey =
     (let r = user_comparator (ExtractUserKey akey) (ExtractUserKey bkey) in
      if r = 0 then
        (let anum = DecodeFixed64 (drop (length akey - 8) akey);
             bnum = DecodeFixed64 (drop (length bkey - 8) bkey)
         in if anum > bnum then -1 else if anum < bnum then 1 else r)
      else r)"


section \<open>db/skiplist\<close>

text \<open>The skip list as \<open>MemTable\<close> instantiates it: a key is a \<open>const char*\<close> to an
  entry in the arena, modelled by the bytes of the entry.  Nodes live in the arena; the
  model keeps them in a list and a node pointer is an index into it, \<open>None\<close> being
  \<open>NULL\<close>.  \<open>head_\<close> is node 0.  \<open>nnext\<close> is the array \<open>next_\<close>, as long as the node is
  high.  Reading a node that is not allocated, or a slot beyond the height of a node, is
  undefined in the source; the model fails with \<open>None\<close>.\<close>

record Node =
  nkey :: bytes
  nnext :: "nat option list"

record SkipList =
  compare :: "bytes \<Rightarrow> bytes \<Rightarrow> int option"
  nodes :: "Node list"
  max_height :: nat

definition kMaxHeight :: nat where
  "kMaxHeight = 12"

definition head :: nat where
  "head = 0"

text \<open>The constructor: a head node of full height with every link \<open>NULL\<close>.\<close>

definition SkipList_new :: "(bytes \<Rightarrow> bytes \<Rightarrow> int option) \<Rightarrow> SkipList" where
  "SkipList_new cmp =
     \<lparr>compare = cmp, nodes = [\<lparr>nkey = [], nnext = replicate kMaxHeight None\<rparr>],
      max_height = 1\<rparr>"

definition Node_Next :: "SkipList \<Rightarrow> nat \<Rightarrow> nat \<Rightarrow> nat option option" where
  "Node_Next sl x n =
     (if x < length (nodes sl) \<and> n < length (nnext (nodes sl ! x))
      then Some (nnext (nodes sl ! x) ! n) else None)"

definition Node_SetNext :: "SkipList \<Rightarrow> nat \<Rightarrow> nat \<Rightarrow> nat option \<Rightarrow> SkipList option" where
  "Node_SetNext sl x n y =
     (if x < length (nodes sl) \<and> n < length (nnext (nodes sl ! x))
      then Some (sl\<lparr>nodes := (nodes sl)[x := (nodes sl ! x)\<lparr>nnext := (nnext (nodes sl ! x))[n := y]\<rparr>]\<rparr>)
      else None)"

text \<open>\<open>KeyIsAfterNode\<close>: \<open>(n != NULL) && (compare_(n->key, key) < 0)\<close>.\<close>

definition KeyIsAfterNode :: "SkipList \<Rightarrow> bytes \<Rightarrow> nat option \<Rightarrow> bool option" where
  "KeyIsAfterNode sl key n =
     (case n of
        None \<Rightarrow> Some False
      | Some a \<Rightarrow>
          if a < length (nodes sl)
          then map_option (\<lambda>r. r < 0) (compare sl (nkey (nodes sl ! a)) key)
          else None)"

text \<open>The loop of \<open>FindGreaterOrEqual\<close>, from node \<open>x\<close> at \<open>level\<close>.  \<open>prev\<close> is \<open>None\<close>
  when the caller passes \<open>NULL\<close>, otherwise the array with the slots written so far.  The
  loop is \<open>while (true)\<close>; when it does not return, the result is \<open>None\<close>.\<close>

partial_function (option) FindGreaterOrEqual_loop ::
  "SkipList \<Rightarrow> bytes \<Rightarrow> nat \<Rightarrow> nat \<Rightarrow> (nat \<rightharpoonup> nat) option
     \<Rightarrow> (nat option \<times> (nat \<rightharpoonup> nat) option) option" where
  "FindGreaterOrEqual_loop sl key x level prev =
     (case Node_Next sl x level of
        None \<Rightarrow> None
      | Some next \<Rightarrow>
          (case KeyIsAfterNode sl key next of
             None \<Rightarrow> None
           | Some after \<Rightarrow>
               if after then
                 (case next of
                    None \<Rightarrow> None
                  | Some n \<Rightarrow> FindGreaterOrEqual_loop sl key n level prev)
               else
                 (let prev1 = map_option (\<lambda>p. p(level \<mapsto> x)) prev
                  in if level = 0 then Some (next, prev1)
                     else FindGreaterOrEqual_loop sl key x (level - 1) prev1)))"

definition FindGreaterOrEqual ::
  "SkipList \<Rightarrow> bytes \<Rightarrow> (nat \<rightharpoonup> nat) option \<Rightarrow> (nat option \<times> (nat \<rightharpoonup> nat) option) option" where
  "FindGreaterOrEqual sl key prev = FindGreaterOrEqual_loop sl key head (max_height sl - 1) prev"

text \<open>\<open>Insert\<close>.  \<open>height\<close> is the result of \<open>RandomHeight()\<close>, a number from 1 to
  \<open>kMaxHeight\<close> drawn from the generator of util/random.h, which is not among the sources;
  the model takes it as an argument.  The new node is allocated at the end of the arena.
  \<open>prev\<close> starts uninitialized: reading a slot that was never written fails.\<close>

definition Insert_level :: "nat \<Rightarrow> (nat \<rightharpoonup> nat) \<Rightarrow> nat \<Rightarrow> SkipList option \<Rightarrow> SkipList option" where
  "Insert_level x prev i slo =
     (case slo of
        None \<Rightarrow> None
      | Some sl \<Rightarrow>
          (case prev i of
             None \<Rightarrow> None
           | Some p \<Rightarrow>
               (case Node_Next sl p i of
                  None \<Rightarrow> None
                | Some nx \<Rightarrow>
                    (case Node_SetNext sl x i nx of
                       None \<Rightarrow> None
                     | Some sl1 \<Rightarrow> Node_SetNext sl1 p i (Some x)))))"

definition SkipList_Insert :: "SkipList \<Rightarrow> bytes \<Rightarrow> nat \<Rightarrow> SkipList option" where
  "SkipList_Insert sl key height =
     (case FindGreaterOrEqual sl key (Some Map.empty) of
        None \<Rightarrow> None
      | Some (x, None) \<Rightarrow> None
      | Some (x, Some prev) \<Rightarrow>
          (let (prev1, sl1) =
                 (if height > max_height sl
                  then (fold (\<lambda>i p. p(i \<mapsto> head)) [max_height sl ..< height] prev,
                        sl\<lparr>max_height := height\<rparr>)
                  else (prev, sl));
               x1 = length (nodes sl1);
               sl2 = sl1\<lparr>nodes := nodes sl1 @ [\<lparr>nkey = key, nnext = replicate height None\<rparr>]\<rparr>
           in fold (Insert_level x1 prev1) [0 ..< height] (Some sl2)))"

section \<open>db/dbformat: value types and lookup keys\<close>

text \<open>Modelled from the spec: the enumeration \<open>ValueType\<close> and \<open>kValueTypeForSeek\<close> are
  declared in db/dbformat.h, which is not among the sources.  The spec has the two types
  \<open>Value\<close> and \<open>Deletion\<close> and says that the type used for seeking is the numerically
  largest one; the numbers are those of the file format, \<open>Deletion = 0\<close> and
  \<open>Value = 1\<close>.\<close>

definition kTypeDeletion :: "64 word" where
  "kTypeDeletion = 0"

definition kTypeValue :: "64 word" where
  "kTypeValue = 1"

definition kValueTypeForSeek :: "64 word" where
  "kValueTypeForSeek = kTypeValue"

definition PackSequenceAndType :: "64 word \<Rightarrow> 64 word \<Rightarrow> 64 word" where
  "PackSequenceAndType seq t = push_bit 8 seq OR t"

text \<open>\<open>LookupKey\<close>: the bytes from \<open>start_\<close> to \<open>end_\<close> and the offset of \<open>kstart_\<close> in
  them.  The constructor is in db/dbformat.cc.\<close>

record LookupKey =
  lk_bytes :: bytes
  kstart :: nat

definition LookupKey_new :: "bytes \<Rightarrow> 64 word \<Rightarrow> LookupKey" where
  "LookupKey_new user_key s =
     (let usize = length user_key;
          dst = EncodeVarint32 (of_nat (usize + 8))
      in \<lparr>lk_bytes = dst @ user_key @ EncodeFixed64 (PackSequenceAndType s kValueTypeForSeek),
          kstart = length dst\<rparr>)"

text \<open>Modelled from the spec: the accessors of \<open>LookupKey\<close> are declared in
  db/dbformat.h.  The key for the memtable is the whole of the bytes (length prefix,
  user key, tag); the user key is what lies between the length prefix and the tag.\<close>

definition memtable_key :: "LookupKey \<Rightarrow> bytes" where
  "memtable_key lk = lk_bytes lk"

definition user_key :: "LookupKey \<Rightarrow> bytes" where
  "user_key lk = take (length (lk_bytes lk) - kstart lk - 8) (drop (kstart lk) (lk_bytes lk))"

section \<open>db/memtable\<close>

text \<open>\<open>GetLengthPrefixedSlice\<close>: a varint32 length read from at most 5 bytes, then that
  many bytes.  The source assumes the data is not corrupted; the model fails with \<open>None\<close>
  when the length does not decode or there are fewer bytes than it says.\<close>

definition GetLengthPrefixedSlice :: "bytes \<Rightarrow> bytes option" where
  "GetLengthPrefixedSlice data =
     (case GetVarint32Ptr (take 5 data) of
        None \<Rightarrow> None
      | Some (len, rest) \<Rightarrow>
          (let p = drop (length (take 5 data) - length rest) data
           in if unat len \<le> length p then Some (take (unat len) p) else None))"

text \<open>\<open>MemTable::KeyComparator::operator()\<close>.\<close>

definition KeyComparator :: "comparator \<Rightarrow> bytes \<Rightarrow> bytes \<Rightarrow> int option" where
  "KeyComparator ucmp aptr bptr =
     (case GetLengthPrefixedSlice aptr of
        None \<Rightarrow> None
      | Some a \<Rightarrow>
          (case GetLengthPrefixedSlice bptr of
             None \<Rightarrow> None
           | Some b \<Rightarrow> Some (InternalKeyComparator_Compare ucmp a b)))"

text \<open>The memtable: the user comparator inside \<open>comparator_\<close>, and the skip list.\<close>

record MemTable =
  user_comparator :: comparator
  table :: SkipList

definition MemTable_new :: "comparator \<Rightarrow> MemTable" where
  "MemTable_new ucmp = \<lparr>user_comparator = ucmp, table = SkipList_new (KeyComparator ucmp)\<rparr>"

text \<open>The entry that \<open>Add\<close> writes into the arena, and \<open>Add\<close>, with the height of the new
  node as an argument.\<close>

definition MemTable_entry :: "64 word \<Rightarrow> 64 word \<Rightarrow> bytes \<Rightarrow> bytes \<Rightarrow> bytes" where
  "MemTable_entry s type key val =
     (let key_size = length key;
          val_size = length val;
          internal_key_size = key_size + 8
      in EncodeVarint32 (of_nat internal_key_size) @ key @ EncodeFixed64 (push_bit 8 s OR type)
           @ EncodeVarint32 (of_nat val_size) @ val)"

definition MemTable_Add ::
  "MemTable \<Rightarrow> nat \<Rightarrow> 64 word \<Rightarrow> 64 word \<Rightarrow> bytes \<Rightarrow> bytes \<Rightarrow> MemTable option" where
  "MemTable_Add mt height s type key val =
     map_option (\<lambda>t. mt\<lparr>table := t\<rparr>)
       (SkipList_Insert (table mt) (MemTable_entry s type key val) height)"

text \<open>\<open>MemTable::Get\<close>.  The result is the value returned, and \<open>*value\<close> and \<open>*s\<close> as the
  call leaves them.\<close>

definition MemTable_Get ::
  "MemTable \<Rightarrow> LookupKey \<Rightarrow> bytes \<Rightarrow> Status \<Rightarrow> (bool \<times> bytes \<times> Status) option" where
  "MemTable_Get mt lkey val s =
     (let memkey = memtable_key lkey in
      case FindGreaterOrEqual (table mt) memkey None of
        None \<Rightarrow> None
      | Some (None, _) \<Rightarrow> Some (False, val, s)
      | Some (Some n, _) \<Rightarrow>
          if n < length (nodes (table mt)) then
            (let entry = nkey (nodes (table mt) ! n) in
             case GetVarint32Ptr (take 5 entry) of
               None \<Rightarrow> None
             | Some (key_length, rest) \<Rightarrow>
                 (let key_ptr = drop (length (take 5 entry) - length rest) entry in
                  if user_comparator mt (take (unat (key_length - 8)) key_ptr) (user_key lkey) = 0
                  then
                    (let tag = DecodeFixed64 (drop (unat (key_length - 8)) key_ptr) in
                     if tag AND 0xff = kTypeValue then
                       (case GetLengthPrefixedSlice (drop (unat key_length) key_ptr) of
                          None \<Rightarrow> None
                        | Some v \<Rightarrow> Some (True, v, s))
                     else if tag AND 0xff = kTypeDeletion then
                       Some (True, val, NotFound [])
                     else Some (False, val, s))
                  else Some (False, val, s)))
          else None)"

section \<open>The memtable scenario\<close>

text \<open>The scenario_entries that \<open>Add\<close> writes for user key \<open>k\<close>: sequence 10 with value \<open>v1\<close>,
  sequence 20 with value \<open>v2\<close>, and the deletion of sequence 30.\<close>

definition entry_10 :: bytes where "entry_10 = [9, 0x6b, 1, 10, 0, 0, 0, 0, 0, 0, 2, 0x76, 0x31]"
definition entry_20 :: bytes where "entry_20 = [9, 0x6b, 1, 20, 0, 0, 0, 0, 0, 0, 2, 0x76, 0x32]"
definition entry_30 :: bytes where "entry_30 = [9, 0x6b, 0, 30, 0, 0, 0, 0, 0, 0, 0]"


text \<open>The skip list after the three scenario_entries are inserted in that order with heights
  \<open>h1\<close>, \<open>h2\<close> and \<open>h3\<close>: node 0 is the head, nodes 1, 2 and 3 hold the scenario_entries.  The
  newest entry sorts first, so at every level below its height the head links to node 3,
  node 3 to node 2 and node 2 to node 1, each skipping the nodes that are not that high.\<close>

definition scenario_table :: "nat \<Rightarrow> nat \<Rightarrow> nat \<Rightarrow> SkipList" where
  "scenario_table h1 h2 h3 =
     \<lparr>compare = KeyComparator BytewiseComparator,
      nodes =
        [\<lparr>nkey = [],
          nnext = map (\<lambda>i. if i < h3 then Some 3 else if i < h2 then Some 2
                           else if i < h1 then Some 1 else None) [0..<12]\<rparr>,
         \<lparr>nkey = entry_10, nnext = map (\<lambda>i. None) [0..<h1]\<rparr>,
         \<lparr>nkey = entry_20, nnext = map (\<lambda>i. if i < h1 then Some 1 else None) [0..<h2]\<rparr>,
         \<lparr>nkey = entry_30,
          nnext = map (\<lambda>i. if i < h2 then Some 2 else if i < h1 then Some 1 else None) [0..<h3]\<rparr>],
      max_height = max (max (max 1 h1) h2) h3\<rparr>"


section \<open>table/block_builder\<close>

text \<open>The builder's fields.  \<open>restarts\<close> is a \<open>std::vector<uint32_t>\<close>, so a pushed
  buffer size is cut to 32 bits; \<open>counter\<close> is an \<open>int\<close>.\<close>

record BlockBuilder =
  buffer :: bytes
  restarts :: "32 word list"
  counter :: int
  finished :: bool
  last_key :: bytes

text \<open>The constructor (and \<open>Reset\<close>): the first restart point is at offset 0.\<close>

definition BlockBuilder_new :: BlockBuilder where
  "BlockBuilder_new =
     \<lparr>buffer = [], restarts = [0], counter = 0, finished = False, last_key = []\<rparr>"

text \<open>The \<open>while\<close> loop of \<open>Add\<close> that counts the bytes shared with the last key.\<close>

function shared_loop :: "bytes \<Rightarrow> bytes \<Rightarrow> nat \<Rightarrow> nat \<Rightarrow> nat" where
  "shared_loop last_key_piece key min_length shared =
     (if shared < min_length \<and> last_key_piece ! shared = key ! shared
      then shared_loop last_key_piece key min_length (shared + 1)
      else shared)"
  by pat_completeness auto
termination
  by (relation "measure (\<lambda>(l, k, m, s). m - s)") auto

declare shared_loop.simps [simp del]

text \<open>\<open>BlockBuilder::Add\<close> for a builder with restart interval
  \<open>block_restart_interval\<close>.  The assertions (not finished, keys increasing under the
  comparator) are requirements on the caller and are not part of the state change.  The
  three sizes are passed to \<open>PutVarint32\<close>, which takes a \<open>uint32_t\<close>.\<close>

definition BlockBuilder_Add :: "int \<Rightarrow> BlockBuilder \<Rightarrow> bytes \<Rightarrow> bytes \<Rightarrow> BlockBuilder" where
  "BlockBuilder_Add block_restart_interval b key val =
     (let last_key_piece = last_key b;
          (shared, restarts1, counter1) =
            (if counter b < block_restart_interval
             then (shared_loop last_key_piece key (min (length last_key_piece) (length key)) 0,
                   restarts b, counter b)
             else (0, restarts b @ [of_nat (length (buffer b))], 0));
          non_shared = length key - shared;
          buffer1 = PutVarint32 (buffer b) (of_nat shared);
          buffer2 = PutVarint32 buffer1 (of_nat non_shared);
          buffer3 = PutVarint32 buffer2 (of_nat (length val));
          buffer4 = buffer3 @ take non_shared (drop shared key);
          buffer5 = buffer4 @ val;
          last_key1 = resize shared (last_key b) @ take non_shared (drop shared key)
      in b\<lparr>buffer := buffer5, restarts := restarts1, counter := counter1 + 1,
            last_key := last_key1\<rparr>)"

text \<open>\<open>BlockBuilder::Finish\<close>: the builder after the call; its buffer is the returned
  block.\<close>

definition BlockBuilder_Finish :: "BlockBuilder \<Rightarrow> BlockBuilder" where
  "BlockBuilder_Finish b =
     (let buffer1 = fold (\<lambda>r buf. PutFixed32 buf r) (restarts b) (buffer b);
          buffer2 = PutFixed32 buffer1 (of_nat (length (restarts b)))
      in b\<lparr>buffer := buffer2, finished := True\<rparr>)"

text \<open>A sequence of \<open>Add\<close> calls on a fresh builder.\<close>

definition BlockBuilder_AddAll :: "int \<Rightarrow> (bytes \<times> bytes) list \<Rightarrow> BlockBuilder" where
  "BlockBuilder_AddAll block_restart_interval kvs =
     fold (\<lambda>(k, v) b. BlockBuilder_Add block_restart_interval b k v) kvs BlockBuilder_new"

section \<open>util/crc32c\<close>

text \<open>Modelled from the spec: util/crc32c.h and util/crc32c.cc are not among the
  sources.  The spec names the checksum CRC32C; this is the bitwise definition of that
  checksum (reflected Castagnoli polynomial), with \<open>Extend\<close> continuing a checksum over
  more data and \<open>Value\<close> the checksum of a buffer from the start.\<close>

definition crc32c_bit :: "32 word \<Rightarrow> 32 word" where
  "crc32c_bit c = (if c AND 1 \<noteq> 0 then drop_bit 1 c XOR 0x82F63B78 else drop_bit 1 c)"

definition crc32c_byte :: "byte \<Rightarrow> 32 word \<Rightarrow> 32 word" where
  "crc32c_byte b c = (crc32c_bit ^^ 8) (c XOR ucast b)"

definition crc32c_Extend :: "32 word \<Rightarrow> bytes \<Rightarrow> 32 word" where
  "crc32c_Extend init_crc data = NOT (fold crc32c_byte data (NOT init_crc))"

definition crc32c_Value :: "bytes \<Rightarrow> 32 word" where
  "crc32c_Value data = crc32c_Extend 0 data"

text \<open>Modelled from the spec: the mask is
  \<open>((crc >> 15) | (crc << 17)) + 0xa282ead8\<close>, and \<open>Unmask\<close> is its inverse.\<close>

definition kMaskDelta :: "32 word" where
  "kMaskDelta = 0xa282ead8"

definition crc32c_Mask :: "32 word \<Rightarrow> 32 word" where
  "crc32c_Mask crc = (drop_bit 15 crc OR push_bit 17 crc) + kMaskDelta"

definition crc32c_Unmask :: "32 word \<Rightarrow> 32 word" where
  "crc32c_Unmask masked_crc =
     (let rot = masked_crc - kMaskDelta in drop_bit 17 rot OR push_bit 15 rot)"

section \<open>db/log_format\<close>

text \<open>Modelled from the spec: db/log_format.h is not among the sources.  Blocks are
  32 KiB, the header is 7 bytes (checksum, length, type), and the record types are
  0 = Zero, 1 = Full, 2 = First, 3 = Middle, 4 = Last.\<close>

definition kBlockSize :: nat where "kBlockSize = 32768"
definition kHeaderSize :: nat where "kHeaderSize = 7"

definition kZeroType :: nat where "kZeroType = 0"
definition kFullType :: nat where "kFullType = 1"
definition kFirstType :: nat where "kFirstType = 2"
definition kMiddleType :: nat where "kMiddleType = 3"
definition kLastType :: nat where "kLastType = 4"
definition kMaxRecordType :: nat where "kMaxRecordType = kLastType"

section \<open>db/log_writer\<close>

text \<open>The writer appends to a \<open>WritableFile\<close>; the model keeps the bytes appended so
  far in \<open>dest\<close>.  Appends and flushes to this in-memory file always succeed, so the
  status of \<open>AddRecord\<close> is always OK and is not carried around.\<close>

record Writer =
  dest :: bytes
  block_offset :: int

definition Writer_new :: Writer where
  "Writer_new = \<lparr>dest = [], block_offset = 0\<rparr>"

text \<open>The second constructor, for a file that already has \<open>dest_length\<close> bytes.\<close>

definition Writer_reopen :: "bytes \<Rightarrow> Writer" where
  "Writer_reopen existing =
     \<lparr>dest = existing, block_offset = int (length existing mod kBlockSize)\<rparr>"

text \<open>The 7-byte header that \<open>EmitPhysicalRecord\<close> formats for a fragment of type
  \<open>t\<close>: masked checksum of type and payload, length (low byte, high byte), type.\<close>

definition record_header :: "nat \<Rightarrow> bytes \<Rightarrow> bytes" where
  "record_header t frag =
     (let n = length frag;
          crc = crc32c_Extend (crc32c_Value [of_nat t]) frag
      in EncodeFixed32 (crc32c_Mask crc) @ [of_nat (n mod 256), of_nat (n div 256), of_nat t])"

definition EmitPhysicalRecord :: "Writer \<Rightarrow> nat \<Rightarrow> bytes \<Rightarrow> Writer" where
  "EmitPhysicalRecord w t frag =
     w\<lparr>dest := (dest w @ record_header t frag) @ frag,
       block_offset := block_offset w + int (kHeaderSize + length frag)\<rparr>"

text \<open>The start of each iteration of the loop in \<open>AddRecord\<close>: when fewer than 7 bytes
  are left in the block, fill the trailer with zero bytes and switch to a new block.\<close>

definition switch_block :: "Writer \<Rightarrow> Writer" where
  "switch_block w =
     (let leftover = int kBlockSize - block_offset w in
      if leftover < int kHeaderSize then
        (if leftover > 0
         then w\<lparr>dest := dest w @ take (nat leftover) [0, 0, 0, 0, 0, 0], block_offset := 0\<rparr>
         else w\<lparr>block_offset := 0\<rparr>)
      else w)"

definition fragment_type :: "bool \<Rightarrow> bool \<Rightarrow> nat" where
  "fragment_type begin end =
     (if begin \<and> end then kFullType
      else if begin then kFirstType
      else if end then kLastType
      else kMiddleType)"

text \<open>The \<open>do ... while (s.ok() && left > 0)\<close> loop of \<open>AddRecord\<close>; \<open>ptr\<close> is the
  part of the payload not yet written (\<open>left\<close> is its length).\<close>

function AddRecord_loop :: "Writer \<Rightarrow> bytes \<Rightarrow> bool \<Rightarrow> Writer" where
  "AddRecord_loop w ptr begin =
     (let w1 = switch_block w;
          avail = nat (int kBlockSize - block_offset w1 - int kHeaderSize);
          left = length ptr;
          fragment_length = (if left < avail then left else avail);
          end = (left = fragment_length);
          w2 = EmitPhysicalRecord w1 (fragment_type begin end) (take fragment_length ptr)
      in if left - fragment_length > 0
         then AddRecord_loop w2 (drop fragment_length ptr) False
         else w2)"
  by pat_completeness auto
termination
proof (relation "measure (\<lambda>(w, ptr, begin).
    2 * length ptr + (if block_offset w = int kBlockSize then 0 else 1))")
  show "wf (measure (\<lambda>(w :: Writer, ptr :: bytes, begin :: bool).
    2 * length ptr + (if block_offset w = int kBlockSize then 0 else 1)))" by simp
next
  fix w :: Writer and ptr :: bytes and bg :: bool
    and w1 avail left fragment_length en w2
  assume a: "w1 = switch_block w"
    "avail = nat (int kBlockSize - block_offset w1 - int kHeaderSize)"
    "left = length ptr"
    "fragment_length = (if left < avail then left else avail)"
    "en = (left = fragment_length)"
    "w2 = EmitPhysicalRecord w1 (fragment_type bg en) (take fragment_length ptr)"
    "0 < left - fragment_length"
  have fl: "fragment_length = avail" "avail < length ptr" using a(3,4,7) by (auto split: if_splits)
  have bo1: "block_offset w1 \<le> int kBlockSize - int kHeaderSize"
    unfolding a(1) switch_block_def Let_def kBlockSize_def kHeaderSize_def by auto
  have bo2: "block_offset w2 = int kBlockSize"
    using bo1 fl unfolding a(6) EmitPhysicalRecord_def a(2) by simp
  have "block_offset w = int kBlockSize \<Longrightarrow> 0 < avail"
    unfolding a(2) a(1) switch_block_def Let_def kBlockSize_def kHeaderSize_def by simp
  then show "((w2, drop fragment_length ptr, False), (w, ptr, bg))
      \<in> measure (\<lambda>(w, ptr, begin).
          2 * length ptr + (if block_offset w = int kBlockSize then 0 else 1))"
    using fl bo2 by auto
qed

declare AddRecord_loop.simps [simp del]

definition AddRecord :: "Writer \<Rightarrow> bytes \<Rightarrow> Writer" where
  "AddRecord w payload = AddRecord_loop w payload True"

section \<open>db/log_reader\<close>

text \<open>The reader's fields.  \<open>rfile\<close> is the part of the \<open>SequentialFile\<close> not read yet;
  reads and skips on this in-memory file always succeed.  \<open>reporter\<close> is \<open>None\<close> for a
  \<open>NULL\<close> reporter, otherwise the calls \<open>Corruption(bytes, status)\<close> it has received, in
  order.  The three offsets are \<open>uint64_t\<close>.\<close>

record Reader =
  rfile :: bytes
  reporter :: "(nat \<times> Status) list option"
  checksum :: bool
  rbuffer :: bytes
  eof :: bool
  last_record_offset :: "64 word"
  end_of_buffer_offset :: "64 word"
  initial_offset :: "64 word"
  resyncing :: bool

definition kEof :: nat where "kEof = kMaxRecordType + 1"
definition kBadRecord :: nat where "kBadRecord = kMaxRecordType + 2"

definition Reader_new :: "bytes \<Rightarrow> (nat \<times> Status) list option \<Rightarrow> bool \<Rightarrow> 64 word \<Rightarrow> Reader" where
  "Reader_new f rep cs init =
     \<lparr>rfile = f, reporter = rep, checksum = cs, rbuffer = [], eof = False,
      last_record_offset = 0, end_of_buffer_offset = 0, initial_offset = init,
      resyncing = (init > 0)\<rparr>"

definition ReportDrop :: "Reader \<Rightarrow> 64 word \<Rightarrow> Status \<Rightarrow> Reader" where
  "ReportDrop r bytes reason =
     (case reporter r of
        None \<Rightarrow> r
      | Some calls \<Rightarrow>
          if end_of_buffer_offset r - of_nat (length (rbuffer r)) - bytes \<ge> initial_offset r
          then r\<lparr>reporter := Some (calls @ [(unat bytes, reason)])\<rparr>
          else r)"

definition ReportCorruption :: "Reader \<Rightarrow> 64 word \<Rightarrow> string \<Rightarrow> Reader" where
  "ReportCorruption r bytes reason = ReportDrop r bytes (Corruption reason)"

text \<open>\<open>SkipToInitialBlock\<close>.  \<open>Skip\<close> on the in-memory file cannot fail, so the function
  always returns \<open>true\<close> and only the new reader state is given.\<close>

definition SkipToInitialBlock :: "Reader \<Rightarrow> Reader" where
  "SkipToInitialBlock r =
     (let offset_in_block = unat (initial_offset r) mod kBlockSize;
          block_start_location = initial_offset r - of_nat offset_in_block;
          block_start_location1 =
            (if offset_in_block > kBlockSize - 6
             then block_start_location + of_nat kBlockSize else block_start_location);
          r1 = r\<lparr>end_of_buffer_offset := block_start_location1\<rparr>
      in if block_start_location1 > 0
         then r1\<lparr>rfile := drop (unat block_start_location1) (rfile r1)\<rparr>
         else r1)"

text \<open>The part of the loop body of \<open>ReadPhysicalRecord\<close> after the refill: parse the
  header at the front of the buffer.  The result is the record type (or \<open>kEof\<close>,
  \<open>kBadRecord\<close>), the caller's \<open>result\<close> slice as the call leaves it, and the reader.
  \<open>header[6]\<close> is a \<open>char\<close> converted to \<open>unsigned int\<close>.\<close>

definition ParseHeader :: "Reader \<Rightarrow> bytes \<Rightarrow> nat \<times> bytes \<times> Reader" where
  "ParseHeader r result =
     (let header = rbuffer r;
          a = unat (header ! 4);
          b = unat (header ! 5);
          type = unat (scast (header ! 6) :: 32 word);
          len = a + 256 * b
      in if kHeaderSize + len > length (rbuffer r) then
           (let drop_size = length (rbuffer r);
                r1 = r\<lparr>rbuffer := []\<rparr>
            in if \<not> eof r
               then (kBadRecord, result, ReportCorruption r1 (of_nat drop_size) ''bad record length'')
               else (kEof, result, r1))
         else if type = kZeroType \<and> len = 0 then
           (kBadRecord, result, r\<lparr>rbuffer := []\<rparr>)
         else if checksum r \<and>
                 crc32c_Value (take (1 + len) (drop 6 header)) \<noteq> crc32c_Unmask (DecodeFixed32 header)
         then
           (let drop_size = length (rbuffer r);
                r1 = r\<lparr>rbuffer := []\<rparr>
            in (kBadRecord, result, ReportCorruption r1 (of_nat drop_size) ''checksum mismatch''))
         else
           (let r1 = r\<lparr>rbuffer := drop (kHeaderSize + len) (rbuffer r)\<rparr>
            in if end_of_buffer_offset r1 - of_nat (length (rbuffer r1)) - of_nat kHeaderSize
                    - of_nat len < initial_offset r1
               then (kBadRecord, [], r1)
               else (type, take len (drop kHeaderSize header), r1)))"

function ReadPhysicalRecord :: "Reader \<Rightarrow> bytes \<Rightarrow> nat \<times> bytes \<times> Reader" where
  "ReadPhysicalRecord r result =
     (if length (rbuffer r) < kHeaderSize then
        (if \<not> eof r then
           (let data = take kBlockSize (rfile r);
                r1 = r\<lparr>rbuffer := data, rfile := drop kBlockSize (rfile r),
                       end_of_buffer_offset := end_of_buffer_offset r + of_nat (length data)\<rparr>;
                r2 = (if length data < kBlockSize then r1\<lparr>eof := True\<rparr> else r1)
            in ReadPhysicalRecord r2 result)
         else (kEof, result, r\<lparr>rbuffer := []\<rparr>))
      else ParseHeader r result)"
  by pat_completeness auto
termination
  by (relation "measure (\<lambda>(r, res). if length (rbuffer r) < kHeaderSize \<and> \<not> eof r then 1 else 0)")
     (auto simp: kBlockSize_def kHeaderSize_def)

declare ReadPhysicalRecord.simps [simp del]


lemma ReportDrop_fields [simp]:
  "rfile (ReportDrop r b st) = rfile r" "rbuffer (ReportDrop r b st) = rbuffer r"
  "eof (ReportDrop r b st) = eof r"
  by (simp_all add: ReportDrop_def split: option.splits)

lemma ReportCorruption_fields [simp]:
  "rfile (ReportCorruption r b m) = rfile r" "rbuffer (ReportCorruption r b m) = rbuffer r"
  "eof (ReportCorruption r b m) = eof r"
  by (simp_all add: ReportCorruption_def)

lemma ParseHeader_decreases:
  assumes "kHeaderSize \<le> length (rbuffer r)" and "ParseHeader r res = (t, res', r')"
    and "t \<noteq> kEof"
  shows "rfile r' = rfile r \<and> length (rbuffer r') < length (rbuffer r)"
  using assms
  by (auto simp: ParseHeader_def Let_def kHeaderSize_def split: if_splits)

lemma ReadPhysicalRecord_decreases:
  "ReadPhysicalRecord r res = (t, res', r') \<Longrightarrow> t \<noteq> kEof \<Longrightarrow>
   length (rfile r') + length (rbuffer r') < length (rfile r) + length (rbuffer r)"
proof (induction r res rule: ReadPhysicalRecord.induct)
  case (1 r result)
  show ?case
  proof (cases "length (rbuffer r) < kHeaderSize")
    case True
    note short = True
    show ?thesis
    proof (cases "eof r")
      case True
      then show ?thesis using 1(2,3) short by (subst (asm) ReadPhysicalRecord.simps) simp
    next
      case False
      define data where "data = take kBlockSize (rfile r)"
      define r1 where "r1 = r\<lparr>rbuffer := data, rfile := drop kBlockSize (rfile r),
                       end_of_buffer_offset := end_of_buffer_offset r + of_nat (length data)\<rparr>"
      define r2 where "r2 = (if length data < kBlockSize then r1\<lparr>eof := True\<rparr> else r1)"
      have rec: "ReadPhysicalRecord r result = ReadPhysicalRecord r2 result"
        using short False
        by (subst ReadPhysicalRecord.simps) (simp add: Let_def data_def r1_def r2_def)
      have "length (rfile r') + length (rbuffer r') < length (rfile r2) + length (rbuffer r2)"
        using 1(1) [OF short False data_def r1_def r2_def] 1(2,3) rec by simp
      moreover have "length (rfile r2) + length (rbuffer r2) \<le> length (rfile r)"
        by (simp add: r2_def r1_def data_def)
      ultimately show ?thesis by simp
    qed
  next
    case False
    then have "ParseHeader r result = (t, res', r')"
      using 1(2) by (subst (asm) ReadPhysicalRecord.simps) simp
    then show ?thesis using ParseHeader_decreases [of r result t res' r'] False 1(3) by simp
  qed
qed


text \<open>\<open>snprintf(buf, sizeof(buf), "unknown record type %u", record_type)\<close>: the decimal
  digits of the type.\<close>

fun decimal :: "nat \<Rightarrow> string" where
  "decimal n = (if n < 10 then [char_of (48 + n)] else decimal (n div 10) @ [char_of (48 + n mod 10)])"

declare decimal.simps [simp del]

text \<open>The \<open>while (true)\<close> loop of \<open>ReadRecord\<close>.  Its variables are the arguments:
  \<open>in_fragmented_record\<close>, \<open>scratch\<close>, \<open>prospective_record_offset\<close> and \<open>fragment\<close>.
  The result is the returned flag, \<open>*record\<close>, \<open>*scratch\<close> and the reader.\<close>

function ReadRecord_loop ::
  "Reader \<Rightarrow> bool \<Rightarrow> bytes \<Rightarrow> 64 word \<Rightarrow> bytes \<Rightarrow> bool \<times> bytes \<times> bytes \<times> Reader" where
  "ReadRecord_loop r in_fragmented_record scratch prospective_record_offset fragment =
     (case ReadPhysicalRecord r fragment of
        (record_type, fragment1, r1) \<Rightarrow>
          (let physical_record_offset =
                 end_of_buffer_offset r1 - of_nat (length (rbuffer r1)) - of_nat kHeaderSize
                   - of_nat (length fragment1)
           in if resyncing r1 \<and> record_type = kMiddleType then
                ReadRecord_loop r1 in_fragmented_record scratch prospective_record_offset fragment1
              else if resyncing r1 \<and> record_type = kLastType then
                ReadRecord_loop (r1\<lparr>resyncing := False\<rparr>) in_fragmented_record scratch
                  prospective_record_offset fragment1
              else
                (let r2 = r1\<lparr>resyncing := False\<rparr> in
                 if record_type = kFullType then
                   (let r3 = (if in_fragmented_record \<and> scratch \<noteq> []
                              then ReportCorruption r2 (of_nat (length scratch))
                                     ''partial record without end(1)''
                              else r2)
                    in (True, fragment1, [], r3\<lparr>last_record_offset := physical_record_offset\<rparr>))
                 else if record_type = kFirstType then
                   (let r3 = (if in_fragmented_record \<and> scratch \<noteq> []
                              then ReportCorruption r2 (of_nat (length scratch))
                                     ''partial record without end(2)''
                              else r2)
                    in ReadRecord_loop r3 True fragment1 physical_record_offset fragment1)
                 else if record_type = kMiddleType then
                   (if \<not> in_fragmented_record
                    then ReadRecord_loop
                           (ReportCorruption r2 (of_nat (length fragment1))
                              ''missing start of fragmented record(1)'')
                           in_fragmented_record scratch prospective_record_offset fragment1
                    else ReadRecord_loop r2 in_fragmented_record (scratch @ fragment1)
                           prospective_record_offset fragment1)
                 else if record_type = kLastType then
                   (if \<not> in_fragmented_record
                    then ReadRecord_loop
                           (ReportCorruption r2 (of_nat (length fragment1))
                              ''missing start of fragmented record(2)'')
                           in_fragmented_record scratch prospective_record_offset fragment1
                    else (True, scratch @ fragment1, scratch @ fragment1,
                          r2\<lparr>last_record_offset := prospective_record_offset\<rparr>))
                 else if record_type = kEof then
                   (False, [], (if in_fragmented_record then [] else scratch), r2)
                 else if record_type = kBadRecord then
                   (if in_fragmented_record
                    then ReadRecord_loop
                           (ReportCorruption r2 (of_nat (length scratch)) ''error in middle of record'')
                           False [] prospective_record_offset fragment1
                    else ReadRecord_loop r2 in_fragmented_record scratch prospective_record_offset
                           fragment1)
                 else
                   ReadRecord_loop
                     (ReportCorruption r2
                        (of_nat (length fragment1
                                 + (if in_fragmented_record then length scratch else 0)))
                        (''unknown record type '' @ decimal record_type))
                     False [] prospective_record_offset fragment1)))"
  by pat_completeness auto
termination
proof (relation "measure (\<lambda>(r, f, s, p, fr). length (rfile r) + length (rbuffer r))")
  show "wf (measure (\<lambda>(r :: Reader, f :: bool, s :: bytes, p :: 64 word, fr :: bytes).
      length (rfile r) + length (rbuffer r)))"
    by simp
qed (auto simp: kEof_def kMaxRecordType_def kLastType_def kMiddleType_def kFirstType_def
       kFullType_def kBadRecord_def
     dest!: sym [THEN ReadPhysicalRecord_decreases])

declare ReadRecord_loop.simps [simp del]

definition ReadRecord :: "Reader \<Rightarrow> bool \<times> bytes \<times> bytes \<times> Reader" where
  "ReadRecord r =
     (let r1 = (if last_record_offset r < initial_offset r then SkipToInitialBlock r else r)
      in ReadRecord_loop r1 False [] 0 [])"

section \<open>Notions used to state and prove the log round trip\<close>

text \<open>A sequence of \<open>AddRecord\<close> calls, and \<open>n\<close> successive \<open>ReadRecord\<close> calls
  collecting the records returned (stopping at the first call that returns \<open>false\<close>).\<close>

definition AddRecords :: "Writer \<Rightarrow> bytes list \<Rightarrow> Writer" where
  "AddRecords w payloads = fold (\<lambda>payload w. AddRecord w payload) payloads w"

fun ReadRecords :: "nat \<Rightarrow> Reader \<Rightarrow> bytes list \<times> Reader" where
  "ReadRecords 0 r = ([], r)"
| "ReadRecords (Suc n) r =
     (case ReadRecord r of
        (got, record, scratch, r1) \<Rightarrow>
          if got then (case ReadRecords n r1 of (records, r2) \<Rightarrow> (record # records, r2))
          else ([], r1))"

text \<open>The writer's invariant: \<open>block_offset\<close> is the position of the end of the file
  within its block (the block size itself when the last record ended a block).\<close>

definition Writer_ok :: "Writer \<Rightarrow> bool" where
  "Writer_ok w \<longleftrightarrow>
     0 \<le> block_offset w \<and> block_offset w \<le> int kBlockSize
     \<and> int (length (dest w)) mod int kBlockSize = block_offset w mod int kBlockSize"

text \<open>The reader has consumed exactly the first \<open>p\<close> bytes of the file \<open>F\<close>, after
  reading \<open>k\<close> blocks: the buffer holds the rest of the current block, and the reader was
  made with \<open>initial_offset = 0\<close>.\<close>

definition reader_at_block :: "bytes \<Rightarrow> nat \<Rightarrow> nat \<Rightarrow> Reader \<Rightarrow> bool" where
  "reader_at_block F k p r \<longleftrightarrow>
     p \<le> min (k * kBlockSize) (length F)
     \<and> (k = 0 \<or> (k - 1) * kBlockSize \<le> p)
     \<and> rbuffer r = take (min (k * kBlockSize) (length F) - p) (drop p F)
     \<and> rfile r = drop (min (k * kBlockSize) (length F)) F
     \<and> (eof r \<longleftrightarrow> length F < k * kBlockSize)
     \<and> end_of_buffer_offset r = of_nat (min (k * kBlockSize) (length F))
     \<and> initial_offset r = 0 \<and> \<not> resyncing r"

definition reader_at :: "bytes \<Rightarrow> nat \<Rightarrow> Reader \<Rightarrow> bool" where
  "reader_at F p r \<longleftrightarrow> (\<exists>k. reader_at_block F k p r)"

text \<open>The length of the fragment that the next iteration of the loop of \<open>AddRecord\<close>
  writes.\<close>

definition fragment_length :: "Writer \<Rightarrow> bytes \<Rightarrow> nat" where
  "fragment_length w ptr =
     (let avail = nat (int kBlockSize - block_offset (switch_block w) - int kHeaderSize)
      in if length ptr < avail then length ptr else avail)"

section \<open>The fragmentation scenario\<close>

text \<open>\<open>n\<close> successive calls of \<open>ReadPhysicalRecord\<close>, collecting the type and payload each
  returns; and the file that the writer produces for payloads of 1000, 97270 and 8000
  bytes: one Full record, then First, Middle and Last fragments of 31754, 32761 and 32755
  bytes, six bytes of padding, and one Full record.\<close>

fun ReadPhysicalRecords :: "nat \<Rightarrow> Reader \<Rightarrow> bytes \<Rightarrow> (nat \<times> bytes) list" where
  "ReadPhysicalRecords 0 r result = []"
| "ReadPhysicalRecords (Suc n) r result =
     (case ReadPhysicalRecord r result of
        (record_type, result1, r1) \<Rightarrow> (record_type, result1) # ReadPhysicalRecords n r1 result1)"

definition scenario_file :: "bytes \<Rightarrow> bytes \<Rightarrow> bytes \<Rightarrow> bytes" where
  "scenario_file p1 p2 p3 =
     (record_header kFullType p1 @ p1)
     @ (record_header kFirstType (take 31754 p2) @ take 31754 p2)
     @ (record_header kMiddleType (take 32761 (drop 31754 p2)) @ take 32761 (drop 31754 p2))
     @ (record_header kLastType (drop 64515 p2) @ drop 64515 p2)
     @ [0, 0, 0, 0, 0, 0]
     @ (record_header kFullType p3 @ p3)"

section \<open>util/cache: one shard of the LRU cache\<close>

text \<open>Cache entries live on the heap and are shared between the two lists, the hash table
  and the handles that clients hold, so the model keeps an explicit heap: a map from
  addresses to entries.  \<open>hvalue\<close> stands for the \<open>void*\<close> value and \<open>deleter\<close> for the
  function pointer.  The link fields \<open>next\<close>, \<open>prev\<close> and \<open>next_hash\<close> are represented
  by the lists they form: the two circular lists by the sequence of their entries from
  \<open>lru_.next\<close> (oldest) to \<open>lru_.prev\<close> (newest), each bucket of the table by its
  chain.  \<open>charge\<close>, \<open>usage\<close> and \<open>capacity\<close> are \<open>size_t\<close> (64 bit); \<open>refs\<close> and
  \<open>hash\<close> are \<open>uint32_t\<close>.\<close>

type_synonym addr = nat

record LRUHandle =
  hvalue :: nat
  deleter :: nat
  charge :: "64 word"
  key :: bytes
  in_cache :: bool
  refs :: "32 word"
  hash :: "32 word"

record HandleTable =
  length_t :: "32 word"
  elems :: "32 word"
  list_t :: "addr list list"

text \<open>The shard.  \<open>deleted\<close> records the calls of deleters, in order: the deleter, the
  key and the value it was called with.  \<open>next_addr\<close> is the address that the next
  \<open>malloc\<close> returns (addresses are handed out in order and not reused); \<open>free\<close>
  removes the entry from the heap.\<close>

record LRUCache =
  capacity :: "64 word"
  usage :: "64 word"
  lru :: "addr list"
  in_use :: "addr list"
  cache_table :: HandleTable
  heap :: "addr \<Rightarrow> LRUHandle option"
  next_addr :: addr
  deleted :: "(nat \<times> bytes \<times> nat) list"

subsection \<open>HandleTable\<close>

text \<open>The bucket of a hash: \<open>hash & (length_ - 1)\<close>.\<close>

definition bucket_of :: "32 word \<Rightarrow> 32 word \<Rightarrow> nat" where
  "bucket_of len h = unat (h AND (len - 1))"

text \<open>\<open>FindPointer\<close> walks the chain of the bucket.  The result is the position in the
  chain of the first entry with this hash and key, or the length of the chain when there
  is none (the trailing slot).  Reading an entry that is not on the heap is undefined
  behaviour in the source; the model fails with \<open>None\<close>.\<close>

fun FindPointer_chain :: "(addr \<Rightarrow> LRUHandle option) \<Rightarrow> bytes \<Rightarrow> 32 word \<Rightarrow> addr list \<Rightarrow> nat option" where
  "FindPointer_chain hp k h [] = Some 0"
| "FindPointer_chain hp k h (p # ps) =
     (case hp p of
        None \<Rightarrow> None
      | Some e \<Rightarrow>
          if hash e \<noteq> h \<or> k \<noteq> key e
          then map_option Suc (FindPointer_chain hp k h ps)
          else Some 0)"

definition FindPointer :: "(addr \<Rightarrow> LRUHandle option) \<Rightarrow> HandleTable \<Rightarrow> bytes \<Rightarrow> 32 word \<Rightarrow> (nat \<times> nat) option" where
  "FindPointer hp t k h =
     (let i = bucket_of (length_t t) h in
      if i < length (list_t t)
      then map_option (\<lambda>j. (i, j)) (FindPointer_chain hp k h (list_t t ! i))
      else None)"

text \<open>\<open>HandleTable::Lookup\<close>: the entry in the slot found, \<open>NULL\<close> for the trailing slot.\<close>

definition HandleTable_Lookup ::
  "(addr \<Rightarrow> LRUHandle option) \<Rightarrow> HandleTable \<Rightarrow> bytes \<Rightarrow> 32 word \<Rightarrow> addr option option" where
  "HandleTable_Lookup hp t k h =
     (case FindPointer hp t k h of
        None \<Rightarrow> None
      | Some (i, j) \<Rightarrow>
          Some (if j < length (list_t t ! i) then Some (list_t t ! i ! j) else None))"

text \<open>\<open>Resize\<close>: the new length is 4 doubled until it is not below \<open>elems_\<close>; every entry
  of every old bucket, in order, is pushed at the head of its new bucket.  The doubling is
  in \<open>uint32_t\<close>; the model gives it fuel for its at most 32 useful rounds and fails when
  they do not suffice (in the source the loop would not end once the length wraps to 0).\<close>

fun Resize_length :: "nat \<Rightarrow> 32 word \<Rightarrow> 32 word \<Rightarrow> 32 word option" where
  "Resize_length 0 new_length n = None"
| "Resize_length (Suc fuel) new_length n =
     (if new_length < n then Resize_length fuel (new_length * 2) n else Some new_length)"

definition Resize_move ::
  "(addr \<Rightarrow> LRUHandle option) \<Rightarrow> 32 word \<Rightarrow> addr \<Rightarrow> addr list list option \<Rightarrow> addr list list option" where
  "Resize_move hp new_length h new_list =
     (case new_list of
        None \<Rightarrow> None
      | Some nl \<Rightarrow>
          (case hp h of
             None \<Rightarrow> None
           | Some e \<Rightarrow>
               (let i = bucket_of new_length (hash e) in
                if i < length nl then Some (nl[i := h # nl ! i]) else None)))"

definition Resize :: "(addr \<Rightarrow> LRUHandle option) \<Rightarrow> HandleTable \<Rightarrow> HandleTable option" where
  "Resize hp t =
     (case Resize_length 33 4 (elems t) of
        None \<Rightarrow> None
      | Some new_length \<Rightarrow>
          (case fold (Resize_move hp new_length) (concat (list_t t))
                  (Some (replicate (unat new_length) [])) of
             None \<Rightarrow> None
           | Some new_list \<Rightarrow> Some (t\<lparr>length_t := new_length, list_t := new_list\<rparr>)))"

text \<open>The constructor: an empty table, resized once.\<close>

definition HandleTable_new :: HandleTable where
  "HandleTable_new = \<lparr>length_t = 4, elems = 0, list_t = replicate 4 []\<rparr>"

text \<open>\<open>HandleTable::Insert\<close>: the entry replaces the one in the slot found, or is linked
  at the end of the chain.  Returns the old entry (\<open>NULL\<close> when there was none) and the
  table.\<close>

definition HandleTable_Insert ::
  "(addr \<Rightarrow> LRUHandle option) \<Rightarrow> HandleTable \<Rightarrow> addr \<Rightarrow> (addr option \<times> HandleTable) option" where
  "HandleTable_Insert hp t h =
     (case hp h of
        None \<Rightarrow> None
      | Some e \<Rightarrow>
          (case FindPointer hp t (key e) (hash e) of
             None \<Rightarrow> None
           | Some (i, j) \<Rightarrow>
               (let chain = list_t t ! i in
                if j < length chain
                then Some (Some (chain ! j), t\<lparr>list_t := (list_t t)[i := chain[j := h]]\<rparr>)
                else
                  (let t1 = t\<lparr>list_t := (list_t t)[i := chain @ [h]], elems := elems t + 1\<rparr>
                   in if elems t1 > length_t t1
                      then map_option (\<lambda>t2. (None, t2)) (Resize hp t1)
                      else Some (None, t1)))))"

text \<open>\<open>HandleTable::Remove\<close>: unlink the entry in the slot found, if any.\<close>

definition HandleTable_Remove ::
  "(addr \<Rightarrow> LRUHandle option) \<Rightarrow> HandleTable \<Rightarrow> bytes \<Rightarrow> 32 word
     \<Rightarrow> (addr option \<times> HandleTable) option" where
  "HandleTable_Remove hp t k h =
     (case FindPointer hp t k h of
        None \<Rightarrow> None
      | Some (i, j) \<Rightarrow>
          (let chain = list_t t ! i in
           if j < length chain
           then Some (Some (chain ! j),
                      t\<lparr>list_t := (list_t t)[i := take j chain @ drop (Suc j) chain],
                        elems := elems t - 1\<rparr>)
           else Some (None, t)))"


subsection \<open>LRUCache\<close>

text \<open>The constructor followed by \<open>SetCapacity\<close>: two empty lists, an empty table.\<close>

definition LRUCache_new :: "64 word \<Rightarrow> LRUCache" where
  "LRUCache_new cap =
     \<lparr>capacity = cap, usage = 0, lru = [], in_use = [], cache_table = HandleTable_new,
      heap = (\<lambda>a. None), next_addr = 0, deleted = []\<rparr>"

text \<open>\<open>LRU_Remove\<close> unlinks the entry from the list it is on; \<open>LRU_Append\<close> links it
  just before the dummy head of the given list, that is, as its newest entry.\<close>

datatype which_list = Lru | InUse

definition LRU_Remove :: "LRUCache \<Rightarrow> addr \<Rightarrow> LRUCache" where
  "LRU_Remove c e = c\<lparr>lru := remove1 e (lru c), in_use := remove1 e (in_use c)\<rparr>"

definition LRU_Append :: "LRUCache \<Rightarrow> which_list \<Rightarrow> addr \<Rightarrow> LRUCache" where
  "LRU_Append c l e =
     (case l of Lru \<Rightarrow> c\<lparr>lru := lru c @ [e]\<rparr> | InUse \<Rightarrow> c\<lparr>in_use := in_use c @ [e]\<rparr>)"

text \<open>Every function that dereferences an entry fails with \<open>None\<close> when the entry is
  not on the heap (a dangling or null pointer in the source).  Assertions are not part of
  the behaviour.\<close>

definition Ref :: "LRUCache \<Rightarrow> addr \<Rightarrow> LRUCache option" where
  "Ref c e =
     (case heap c e of
        None \<Rightarrow> None
      | Some h \<Rightarrow>
          (let c1 = (if refs h = 1 \<and> in_cache h
                     then LRU_Append (LRU_Remove c e) InUse e else c)
           in Some (c1\<lparr>heap := (heap c1)(e \<mapsto> h\<lparr>refs := refs h + 1\<rparr>)\<rparr>)))"

definition Unref :: "LRUCache \<Rightarrow> addr \<Rightarrow> LRUCache option" where
  "Unref c e =
     (case heap c e of
        None \<Rightarrow> None
      | Some h0 \<Rightarrow>
          (let h = h0\<lparr>refs := refs h0 - 1\<rparr> in
           if refs h = 0 then
             Some (c\<lparr>deleted := deleted c @ [(deleter h, key h, hvalue h)],
                     heap := (heap c)(e := None)\<rparr>)
           else if in_cache h \<and> refs h = 1 then
             (let c1 = c\<lparr>heap := (heap c)(e \<mapsto> h)\<rparr>
              in Some (LRU_Append (LRU_Remove c1 e) Lru e))
           else Some (c\<lparr>heap := (heap c)(e \<mapsto> h)\<rparr>)))"

text \<open>\<open>FinishErase\<close>: the argument is \<open>None\<close> for \<open>NULL\<close>; the flag returned says
  whether it was not.\<close>

definition FinishErase :: "LRUCache \<Rightarrow> addr option \<Rightarrow> (bool \<times> LRUCache) option" where
  "FinishErase c eo =
     (case eo of
        None \<Rightarrow> Some (False, c)
      | Some e \<Rightarrow>
          (case heap c e of
             None \<Rightarrow> None
           | Some h \<Rightarrow>
               (let c1 = LRU_Remove c e;
                    c2 = c1\<lparr>heap := (heap c1)(e \<mapsto> h\<lparr>in_cache := False\<rparr>),
                            usage := usage c1 - charge h\<rparr>
                in map_option (\<lambda>c3. (True, c3)) (Unref c2 e))))"

definition LRUCache_Lookup :: "LRUCache \<Rightarrow> bytes \<Rightarrow> 32 word \<Rightarrow> (addr option \<times> LRUCache) option" where
  "LRUCache_Lookup c k h =
     (case HandleTable_Lookup (heap c) (cache_table c) k h of
        None \<Rightarrow> None
      | Some None \<Rightarrow> Some (None, c)
      | Some (Some e) \<Rightarrow> map_option (\<lambda>c1. (Some e, c1)) (Ref c e))"

definition LRUCache_Release :: "LRUCache \<Rightarrow> addr \<Rightarrow> LRUCache option" where
  "LRUCache_Release c handle = Unref c handle"

text \<open>The number of entries linked in the table.\<close>

definition table_size :: "LRUCache \<Rightarrow> nat" where
  "table_size c = length (concat (list_t (cache_table c)))"

text \<open>The eviction loop at the end of \<open>Insert\<close>:
  \<open>while (usage_ > capacity_ && lru_.next != &lru_)\<close>.  When \<open>FinishErase\<close> returns
  \<open>false\<close> (the oldest entry was not in the table) the source fails its assertion, or
  without assertions repeats the same iteration for ever; the model fails with \<open>None\<close>.\<close>

lemma length_concat_update:
  "i < length xs \<Longrightarrow>
   length (concat (xs[i := ys])) + length (xs ! i) = length (concat xs) + length ys"
proof (induction xs arbitrary: i)
  case Nil
  then show ?case by simp
next
  case (Cons x xs)
  then show ?case by (cases i) auto
qed

lemma HandleTable_Remove_size:
  assumes "HandleTable_Remove hp t k h = Some (Some e, t1)"
  shows "length (concat (list_t t1)) < length (concat (list_t t))"
proof -
  from assms obtain i j where f: "FindPointer hp t k h = Some (i, j)"
    by (auto simp: HandleTable_Remove_def split: option.splits)
  then have i: "i < length (list_t t)"
    by (auto simp: FindPointer_def Let_def split: if_splits)
  let ?chain = "list_t t ! i"
  have j: "j < length ?chain" and t1: "list_t t1 = (list_t t)[i := take j ?chain @ drop (Suc j) ?chain]"
    using assms f by (auto simp: HandleTable_Remove_def Let_def split: if_splits)
  have "length (take j ?chain @ drop (Suc j) ?chain) < length ?chain" using j by simp
  then show ?thesis
    unfolding t1 using length_concat_update [OF i, of "take j ?chain @ drop (Suc j) ?chain"]
    by linarith
qed

lemma Unref_cache_table: "Unref c e = Some c1 \<Longrightarrow> cache_table c1 = cache_table c"
  by (auto simp: Unref_def Let_def LRU_Append_def LRU_Remove_def
      split: option.splits if_splits)

lemma FinishErase_cache_table:
  "FinishErase c eo = Some (b, c1) \<Longrightarrow> cache_table c1 = cache_table c \<and> (b \<longleftrightarrow> eo \<noteq> None)"
  by (auto simp: FinishErase_def Let_def LRU_Remove_def dest!: Unref_cache_table
      split: option.splits)

function evict_loop :: "LRUCache \<Rightarrow> LRUCache option" where
  "evict_loop c =
     (if usage c > capacity c \<and> lru c \<noteq> [] then
        (let old = hd (lru c) in
         case heap c old of
           None \<Rightarrow> None
         | Some h \<Rightarrow>
             (case HandleTable_Remove (heap c) (cache_table c) (key h) (hash h) of
                None \<Rightarrow> None
              | Some (removed, t1) \<Rightarrow>
                  (case FinishErase (c\<lparr>cache_table := t1\<rparr>) removed of
                     None \<Rightarrow> None
                   | Some (erased, c1) \<Rightarrow> if erased then evict_loop c1 else None)))
      else Some c)"
  by pat_completeness auto

termination
proof (relation "measure table_size")
  show "wf (measure table_size)" by simp
next
  fix c :: LRUCache and old h x removed t1 y erased c1
  assume a: "HandleTable_Remove (heap c) (cache_table c) (key h) (hash h) = Some x"
    "(removed, t1) = x"
    "FinishErase (c\<lparr>cache_table := t1\<rparr>) removed = Some y"
    "(erased, c1) = y" "erased"
  have r: "HandleTable_Remove (heap c) (cache_table c) (key h) (hash h) = Some (removed, t1)"
    using a(1,2) by simp
  have f: "FinishErase (c\<lparr>cache_table := t1\<rparr>) removed = Some (erased, c1)"
    using a(3,4) by simp
  from FinishErase_cache_table [OF f] a(5) obtain e where e: "removed = Some e"
    and t: "cache_table c1 = t1" by auto
  show "(c1, c) \<in> measure table_size"
    using HandleTable_Remove_size [OF r [unfolded e]] t by (simp add: table_size_def)
qed

declare evict_loop.simps [simp del]

text \<open>\<open>LRUCache::Insert\<close>, in two parts.  \<open>Insert_link\<close> is the code before the
  loop: the entry is allocated and filled and, when the capacity is not 0, linked into
  \<open>in_use\<close> and the table, the entry it replaces there being erased.\<close>

definition Insert_link ::
  "LRUCache \<Rightarrow> bytes \<Rightarrow> 32 word \<Rightarrow> nat \<Rightarrow> 64 word \<Rightarrow> nat \<Rightarrow> LRUCache option" where
  "Insert_link c k h v chg del =
     (let e = next_addr c;
          entry = \<lparr>hvalue = v, deleter = del, charge = chg, key = k, in_cache = False,
                   refs = 1, hash = h\<rparr>;
          c0 = c\<lparr>heap := (heap c)(e \<mapsto> entry), next_addr := e + 1\<rparr>
      in if capacity c0 > 0 then
           (let entry1 = entry\<lparr>refs := refs entry + 1, in_cache := True\<rparr>;
                c1 = LRU_Append (c0\<lparr>heap := (heap c0)(e \<mapsto> entry1)\<rparr>) InUse e;
                c2 = c1\<lparr>usage := usage c1 + chg\<rparr>
            in case HandleTable_Insert (heap c2) (cache_table c2) e of
                 None \<Rightarrow> None
               | Some (old, t1) \<Rightarrow>
                   map_option snd (FinishErase (c2\<lparr>cache_table := t1\<rparr>) old))
         else Some c0)"

text \<open>The whole of \<open>Insert\<close>: the first part, then the eviction loop.  The result is
  the handle returned and the shard.\<close>

definition LRUCache_Insert ::
  "LRUCache \<Rightarrow> bytes \<Rightarrow> 32 word \<Rightarrow> nat \<Rightarrow> 64 word \<Rightarrow> nat \<Rightarrow> (addr \<times> LRUCache) option" where
  "LRUCache_Insert c k h v chg del =
     (case Insert_link c k h v chg del of
        None \<Rightarrow> None
      | Some c4 \<Rightarrow> map_option (\<lambda>c5. (next_addr c, c5)) (evict_loop c4))"

definition LRUCache_Erase :: "LRUCache \<Rightarrow> bytes \<Rightarrow> 32 word \<Rightarrow> LRUCache option" where
  "LRUCache_Erase c k h =
     (case HandleTable_Remove (heap c) (cache_table c) k h of
        None \<Rightarrow> None
      | Some (removed, t1) \<Rightarrow> map_option snd (FinishErase (c\<lparr>cache_table := t1\<rparr>) removed))"

subsection \<open>The invariant of a shard\<close>

text \<open>The table is well formed over a heap: every entry of a chain is allocated and its
  hash selects the bucket of that chain, every hash selects an existing bucket, no entry is
  linked twice, and no two entries have the same key and hash.\<close>

definition table_ok :: "(addr \<Rightarrow> LRUHandle option) \<Rightarrow> HandleTable \<Rightarrow> bool" where
  "table_ok hp t \<longleftrightarrow>
     (\<forall>i < length (list_t t). \<forall>e \<in> set (list_t t ! i).
        \<exists>h. hp e = Some h \<and> bucket_of (length_t t) (hash h) = i)
     \<and> (\<forall>h. bucket_of (length_t t) h < length (list_t t))
     \<and> distinct (concat (list_t t))
     \<and> (\<forall>e \<in> set (concat (list_t t)). \<forall>e' \<in> set (concat (list_t t)).
          \<forall>h h'. hp e = Some h \<and> hp e' = Some h' \<and> key h = key h' \<and> hash h = hash h'
            \<longrightarrow> e = e')"

text \<open>The shard is well formed: the table is, no entry is on both lists or twice on one,
  the entries on the lists are those in the table, the entries on \<open>lru\<close> are in the cache
  with the cache's reference only (\<open>refs = 1\<close>), those on \<open>in_use\<close> are in the cache and
  referenced by a client as well (\<open>refs > 1\<close>), and nothing is allocated at or beyond the
  address of the next allocation.\<close>

definition LRU_inv :: "LRUCache \<Rightarrow> bool" where
  "LRU_inv c \<longleftrightarrow>
     table_ok (heap c) (cache_table c)
     \<and> distinct (lru c @ in_use c)
     \<and> set (lru c) \<union> set (in_use c) = set (concat (list_t (cache_table c)))
     \<and> (\<forall>e \<in> set (lru c). \<exists>h. heap c e = Some h \<and> in_cache h \<and> refs h = 1)
     \<and> (\<forall>e \<in> set (in_use c). \<exists>h. heap c e = Some h \<and> in_cache h \<and> refs h > 1)
     \<and> (\<forall>a \<ge> next_addr c. heap c a = None)"






section \<open>Internal key ordering\<close>

subsection \<open>The bytewise comparator orders byte strings lexicographically\<close>

lemma Slice_compare_Nil_Nil: "Slice_compare [] [] = 0"
  by (simp add: Slice_compare_def)

lemma Slice_compare_Nil_Cons: "Slice_compare [] (y # ys) = -1"
  by (simp add: Slice_compare_def)

lemma Slice_compare_Cons_Nil: "Slice_compare (x # xs) [] = 1"
  by (simp add: Slice_compare_def)

lemma Slice_compare_Cons_Cons:
  "Slice_compare (x # xs) (y # ys)
     = (if x \<noteq> y then int (unat x) - int (unat y) else Slice_compare xs ys)"
proof -
  have ne: "x \<noteq> y \<Longrightarrow> int (unat x) - int (unat y) \<noteq> 0"
    by (simp add: word_uint_eq_iff)
  show ?thesis
    using ne by (auto simp: Slice_compare_def Let_def)
qed

lemma Slice_compare_sign:
  "(Slice_compare a b < 0 \<longleftrightarrow> (a, b) \<in> lexord {(x, y). x < y})
   \<and> (Slice_compare a b = 0 \<longleftrightarrow> a = b)
   \<and> (0 < Slice_compare a b \<longleftrightarrow> (b, a) \<in> lexord {(x, y). x < y})"
proof (induction a b rule: list_induct2')
  case 1
  show ?case by (simp add: Slice_compare_Nil_Nil)
next
  case (2 x xs)
  show ?case by (simp add: Slice_compare_Cons_Nil)
next
  case (3 y ys)
  show ?case by (simp add: Slice_compare_Nil_Cons)
next
  case (4 x xs y ys)
  show ?case
  proof (cases "x = y")
    case True
    then show ?thesis using 4 by (simp add: Slice_compare_Cons_Cons)
  next
    case False
    then have "x < y \<or> y < x" by auto
    then show ?thesis
      using False by (auto simp: Slice_compare_Cons_Cons word_less_def)
  qed
qed

subsection \<open>The packed tag orders by sequence number, then by type\<close>

lemma lex256:
  "(n::nat) < m \<longleftrightarrow> n div 256 < m div 256 \<or> (m div 256 = n div 256 \<and> n mod 256 < m mod 256)"
proof -
  have m: "m = 256 * (m div 256) + m mod 256" by simp
  have n: "n = 256 * (n div 256) + n mod 256" by simp
  have "m mod 256 < 256" "n mod 256 < 256" by simp_all
  then show ?thesis using m n by linarith
qed

lemma unat_drop_bit_8: "unat (drop_bit 8 (x :: 64 word)) = unat x div 256"
proof -
  have "unat (drop_bit 8 x) = unat x div 2 ^ 8" by (metis unat_drop_bit_eq drop_bit_eq_div)
  then show ?thesis by simp
qed

lemma unat_and_ff: "unat ((x :: 64 word) AND 0xff) = unat x mod 256"
proof -
  have k: "(0xff :: 64 word) = mask 8" by (simp add: mask_eq_exp_minus_1)
  have "unat (x AND mask 8) = unat x mod 2 ^ 8"
    by (metis take_bit_eq_mask unsigned_take_bit_eq take_bit_eq_mod)
  then show ?thesis unfolding k by simp
qed

lemma word_tag_order:
  fixes x y :: "64 word"
  shows "y < x \<longleftrightarrow> drop_bit 8 y < drop_bit 8 x
            \<or> (drop_bit 8 x = drop_bit 8 y \<and> y AND 0xff < x AND 0xff)"
  unfolding word_less_nat_alt word_unat_eq_iff unat_drop_bit_8 unat_and_ff
  by (rule lex256)

lemma tag_order:
  "tag_of b < tag_of a
     \<longleftrightarrow> sequence_of b < sequence_of a
         \<or> (sequence_of a = sequence_of b \<and> type_of b < type_of a)"
  unfolding sequence_of_def type_of_def by (rule word_tag_order)

lemma Compare_unfold:
  "InternalKeyComparator_Compare ucmp a b =
     (if ucmp (ExtractUserKey a) (ExtractUserKey b) \<noteq> 0
      then ucmp (ExtractUserKey a) (ExtractUserKey b)
      else if tag_of b < tag_of a then -1 else if tag_of a < tag_of b then 1 else 0)"
  by (simp add: InternalKeyComparator_Compare_def tag_of_def Let_def)

subsection \<open>The internal key comparator\<close>

text \<open>C3: \<open>InternalKeyComparator::Compare\<close> on two internal keys (byte strings that end
  in the 8-byte tag).  When the user comparator tells the user keys apart, its result is the
  result: the order is ascending in the user key.  When the user keys tie, the result is
  \<open>-1\<close>, \<open>1\<close> or \<open>0\<close> as the first tag is greater than, less than or equal to the second:
  the order is descending in the tag, and the tag orders by sequence number first and by
  type second.  So with tied user keys a strictly greater sequence number in the first key
  puts it strictly before the second.  With the bytewise comparator as the user comparator
  the sign of the result is that of the lexicographic order of the user keys (bytes
  unsigned), then of the descending order of the tags.\<close>

theorem internal_key_order:
  assumes "8 \<le> length a" and "8 \<le> length b"
  shows "(ucmp (ExtractUserKey a) (ExtractUserKey b) \<noteq> 0 \<longrightarrow>
            InternalKeyComparator_Compare ucmp a b = ucmp (ExtractUserKey a) (ExtractUserKey b))
     \<and> (ucmp (ExtractUserKey a) (ExtractUserKey b) = 0 \<longrightarrow>
            InternalKeyComparator_Compare ucmp a b
              = (if tag_of b < tag_of a then -1 else if tag_of a < tag_of b then 1 else 0))
     \<and> (tag_of b < tag_of a
          \<longleftrightarrow> sequence_of b < sequence_of a
              \<or> (sequence_of a = sequence_of b \<and> type_of b < type_of a))
     \<and> (ucmp (ExtractUserKey a) (ExtractUserKey b) = 0 \<and> sequence_of b < sequence_of a \<longrightarrow>
            InternalKeyComparator_Compare ucmp a b < 0)
     \<and> (InternalKeyComparator_Compare BytewiseComparator a b < 0
          \<longleftrightarrow> (ExtractUserKey a, ExtractUserKey b) \<in> lexord {(x, y). x < y}
              \<or> (ExtractUserKey a = ExtractUserKey b \<and> tag_of b < tag_of a))
     \<and> (InternalKeyComparator_Compare BytewiseComparator a b = 0
          \<longleftrightarrow> ExtractUserKey a = ExtractUserKey b \<and> tag_of a = tag_of b)
     \<and> (0 < InternalKeyComparator_Compare BytewiseComparator a b
          \<longleftrightarrow> (ExtractUserKey b, ExtractUserKey a) \<in> lexord {(x, y). x < y}
              \<or> (ExtractUserKey a = ExtractUserKey b \<and> tag_of a < tag_of b))"
proof -
  let ?ua = "ExtractUserKey a" and ?ub = "ExtractUserKey b"
  note s = Slice_compare_sign [of ?ua ?ub, folded BytewiseComparator_def]
  have 1: "ucmp ?ua ?ub \<noteq> 0 \<longrightarrow> InternalKeyComparator_Compare ucmp a b = ucmp ?ua ?ub"
    by (simp add: Compare_unfold)
  have 2: "ucmp ?ua ?ub = 0 \<longrightarrow> InternalKeyComparator_Compare ucmp a b
              = (if tag_of b < tag_of a then -1 else if tag_of a < tag_of b then 1 else 0)"
    by (simp add: Compare_unfold)
  have 3: "tag_of b < tag_of a
          \<longleftrightarrow> sequence_of b < sequence_of a
              \<or> (sequence_of a = sequence_of b \<and> type_of b < type_of a)"
    by (rule tag_order)
  have 4: "ucmp ?ua ?ub = 0 \<and> sequence_of b < sequence_of a \<longrightarrow>
            InternalKeyComparator_Compare ucmp a b < 0"
    using 3 by (simp add: Compare_unfold)
  have 5: "InternalKeyComparator_Compare BytewiseComparator a b < 0
          \<longleftrightarrow> (?ua, ?ub) \<in> lexord {(x, y). x < y} \<or> (?ua = ?ub \<and> tag_of b < tag_of a)"
  proof (cases "BytewiseComparator ?ua ?ub = 0")
    case True
    then have "?ua = ?ub" using s by blast
    then show ?thesis using True s by (auto simp: Compare_unfold)
  next
    case False
    then have "?ua \<noteq> ?ub" using s by blast
    then show ?thesis using False s by (simp add: Compare_unfold)
  qed
  have 6: "InternalKeyComparator_Compare BytewiseComparator a b = 0
          \<longleftrightarrow> ?ua = ?ub \<and> tag_of a = tag_of b"
  proof (cases "BytewiseComparator ?ua ?ub = 0")
    case True
    then have "?ua = ?ub" using s by blast
    then show ?thesis using True by (auto simp: Compare_unfold)
  next
    case False
    then have "?ua \<noteq> ?ub" using s by blast
    then show ?thesis using False by (simp add: Compare_unfold)
  qed
  have 7: "0 < InternalKeyComparator_Compare BytewiseComparator a b
          \<longleftrightarrow> (?ub, ?ua) \<in> lexord {(x, y). x < y} \<or> (?ua = ?ub \<and> tag_of a < tag_of b)"
  proof (cases "BytewiseComparator ?ua ?ub = 0")
    case True
    then have "?ua = ?ub" using s by blast
    then show ?thesis using True s by (auto simp: Compare_unfold)
  next
    case False
    then have "?ua \<noteq> ?ub" using s by blast
    then show ?thesis using False s by (simp add: Compare_unfold)
  qed
  show ?thesis using 1 2 3 4 5 6 7 by blast
qed

text \<open>Three keys: user key \<open>k\<close> with sequence 2, user key \<open>k\<close> with sequence 1, and
  user key \<open>a\<close> with sequence 2, all of type 1.\<close>

theorem internal_key_order_witness:
  "8 \<le> length [0x6b, 1, 2, 0, 0, 0, 0, 0, 0 :: byte]
   \<and> 8 \<le> length [0x6b, 1, 1, 0, 0, 0, 0, 0, 0 :: byte]
   \<and> 8 \<le> length [0x61, 1, 2, 0, 0, 0, 0, 0, 0 :: byte]
   \<and> BytewiseComparator (ExtractUserKey [0x6b, 1, 2, 0, 0, 0, 0, 0, 0])
         (ExtractUserKey [0x6b, 1, 1, 0, 0, 0, 0, 0, 0]) = 0
   \<and> sequence_of [0x6b, 1, 1, 0, 0, 0, 0, 0, 0] < sequence_of [0x6b, 1, 2, 0, 0, 0, 0, 0, 0]
   \<and> InternalKeyComparator_Compare BytewiseComparator
         [0x6b, 1, 2, 0, 0, 0, 0, 0, 0] [0x6b, 1, 1, 0, 0, 0, 0, 0, 0] = -1
   \<and> InternalKeyComparator_Compare BytewiseComparator
         [0x6b, 1, 1, 0, 0, 0, 0, 0, 0] [0x6b, 1, 2, 0, 0, 0, 0, 0, 0] = 1
   \<and> BytewiseComparator (ExtractUserKey [0x61, 1, 2, 0, 0, 0, 0, 0, 0])
         (ExtractUserKey [0x6b, 1, 1, 0, 0, 0, 0, 0, 0]) = -10
   \<and> InternalKeyComparator_Compare BytewiseComparator
         [0x61, 1, 2, 0, 0, 0, 0, 0, 0] [0x6b, 1, 1, 0, 0, 0, 0, 0, 0] = -10
   \<and> InternalKeyComparator_Compare BytewiseComparator
         [0x6b, 1, 1, 0, 0, 0, 0, 0, 0] [0x61, 1, 2, 0, 0, 0, 0, 0, 0] = 10"
proof -
  let ?k2 = "[0x6b, 1, 2, 0, 0, 0, 0, 0, 0 :: byte]"
  let ?k1 = "[0x6b, 1, 1, 0, 0, 0, 0, 0, 0 :: byte]"
  let ?a2 = "[0x61, 1, 2, 0, 0, 0, 0, 0, 0 :: byte]"
  have u: "BytewiseComparator (ExtractUserKey ?k2) (ExtractUserKey ?k1) = 0"
    "BytewiseComparator (ExtractUserKey ?k1) (ExtractUserKey ?k2) = 0"
    "BytewiseComparator (ExtractUserKey ?a2) (ExtractUserKey ?k1) = -10"
    "BytewiseComparator (ExtractUserKey ?k1) (ExtractUserKey ?a2) = 10"
    by (simp_all add: BytewiseComparator_def Slice_compare_def ExtractUserKey_def)
  have t: "tag_of ?k1 < tag_of ?k2"
    by (simp add: tag_of_def DecodeFixed64_def DecodeFixed32_def)
  have s: "sequence_of ?k1 < sequence_of ?k2"
    by (simp add: sequence_of_def tag_of_def DecodeFixed64_def DecodeFixed32_def)
  have l: "8 \<le> length ?k2" "8 \<le> length ?k1" "8 \<le> length ?a2" by simp_all
  have t': "\<not> tag_of ?k2 < tag_of ?k1" using t by simp
  have 1: "InternalKeyComparator_Compare BytewiseComparator ?k2 ?k1 = -1"
  proof -
    from internal_key_order [OF l(1) l(2), of BytewiseComparator]
    have "BytewiseComparator (ExtractUserKey ?k2) (ExtractUserKey ?k1) = 0 \<longrightarrow>
        InternalKeyComparator_Compare BytewiseComparator ?k2 ?k1
          = (if tag_of ?k1 < tag_of ?k2 then -1 else if tag_of ?k2 < tag_of ?k1 then 1 else 0)"
      by blast
    then show ?thesis using u(1) t by simp
  qed
  have 2: "InternalKeyComparator_Compare BytewiseComparator ?k1 ?k2 = 1"
  proof -
    from internal_key_order [OF l(2) l(1), of BytewiseComparator]
    have "BytewiseComparator (ExtractUserKey ?k1) (ExtractUserKey ?k2) = 0 \<longrightarrow>
        InternalKeyComparator_Compare BytewiseComparator ?k1 ?k2
          = (if tag_of ?k2 < tag_of ?k1 then -1 else if tag_of ?k1 < tag_of ?k2 then 1 else 0)"
      by blast
    then show ?thesis using u(2) t t' by simp
  qed
  have 3: "InternalKeyComparator_Compare BytewiseComparator ?a2 ?k1 = -10"
  proof -
    from internal_key_order [OF l(3) l(2), of BytewiseComparator]
    have "BytewiseComparator (ExtractUserKey ?a2) (ExtractUserKey ?k1) \<noteq> 0 \<longrightarrow>
        InternalKeyComparator_Compare BytewiseComparator ?a2 ?k1
          = BytewiseComparator (ExtractUserKey ?a2) (ExtractUserKey ?k1)"
      by blast
    then show ?thesis using u(3) by simp
  qed
  have 4: "InternalKeyComparator_Compare BytewiseComparator ?k1 ?a2 = 10"
  proof -
    from internal_key_order [OF l(2) l(3), of BytewiseComparator]
    have "BytewiseComparator (ExtractUserKey ?k1) (ExtractUserKey ?a2) \<noteq> 0 \<longrightarrow>
        InternalKeyComparator_Compare BytewiseComparator ?k1 ?a2
          = BytewiseComparator (ExtractUserKey ?k1) (ExtractUserKey ?a2)"
      by blast
    then show ?thesis using u(4) by simp
  qed
  show ?thesis using l u(1,3) s 1 2 3 4 by blast
qed

section \<open>The memtable: a newer entry shadows the older ones\<close>

lemma map_upt_update:
  "j < N \<Longrightarrow> (map g [0..<N])[j := v] = map (\<lambda>i. if i = j then v else g i) [0..<N]"
  by (auto intro: nth_equalityI)

lemma Node_Next_head:
  "l < N \<Longrightarrow> Node_Next \<lparr>compare = c, nodes = \<lparr>nkey = k0, nnext = map f [0..<N]\<rparr> # rest, max_height = mh\<rparr> 0 l
     = Some (f l)"
  by (simp add: Node_Next_def)

text \<open>A search that never leaves the head.\<close>

lemma FindGreaterOrEqual_loop_head:
  assumes sl: "sl = \<lparr>compare = c, nodes = \<lparr>nkey = k0, nnext = map f [0..<N]\<rparr> # rest, max_height = mh\<rparr>"
    and "level < N"
    and "\<forall>l \<le> level. KeyIsAfterNode sl target (f l) = Some False"
  shows "FindGreaterOrEqual_loop sl target 0 level prev
     = Some (f 0, map_option (\<lambda>p i. if i \<le> level then Some 0 else p i) prev)"
  using assms(2,3)
proof (induction level arbitrary: prev)
  case 0
  have nn: "Node_Next sl 0 0 = Some (f 0)" unfolding sl using 0(1) by (rule Node_Next_head)
  have ka: "KeyIsAfterNode sl target (f 0) = Some False" using 0(2) by simp
  have "(\<lambda>p :: nat \<rightharpoonup> nat. p(0 \<mapsto> 0)) = (\<lambda>p i. if i \<le> 0 then Some 0 else p i)"
    by (auto simp: fun_eq_iff)
  then show ?case
    by (subst FindGreaterOrEqual_loop.simps) (simp add: nn ka)
next
  case (Suc level)
  have nn: "Node_Next sl 0 (Suc level) = Some (f (Suc level))"
    unfolding sl using Suc.prems(1) by (rule Node_Next_head)
  have ka: "KeyIsAfterNode sl target (f (Suc level)) = Some False" using Suc.prems(2) by simp
  have ih: "FindGreaterOrEqual_loop sl target 0 level prev'
     = Some (f 0, map_option (\<lambda>p i. if i \<le> level then Some 0 else p i) prev')" for prev'
    using Suc.IH [of prev'] Suc.prems by simp
  have "map_option (\<lambda>p i. if i \<le> level then Some 0 else p i)
           (map_option (\<lambda>p. p(Suc level \<mapsto> 0)) prev)
        = map_option (\<lambda>p i. if i \<le> Suc level then Some (0 :: nat) else p i) prev"
    by (cases prev) (auto simp: fun_eq_iff le_Suc_eq)
  then show ?case
    by (subst FindGreaterOrEqual_loop.simps) (simp add: nn ka ih)
qed

lemma fold_prev_head:
  "fold (\<lambda>i p. p(i \<mapsto> v)) [a..<b] p = (\<lambda>i. if a \<le> i \<and> i < b then Some v else p i)"
proof (induction b)
  case 0
  show ?case by simp
next
  case (Suc b)
  show ?case
  proof (cases "a \<le> b")
    case True
    then show ?thesis using Suc by (auto simp: fun_eq_iff less_Suc_eq)
  next
    case False
    then show ?thesis by (auto simp: fun_eq_iff)
  qed
qed

lemma Insert_level_step:
  assumes "prev j = Some 0" and "j < height" and "height \<le> N"
  shows "Insert_level (Suc (length rest)) prev j
      (Some \<lparr>compare = c,
             nodes = \<lparr>nkey = k0, nnext = map (\<lambda>i. if i < j then Some (Suc (length rest)) else f i) [0..<N]\<rparr>
                       # rest @ [\<lparr>nkey = target,
                                 nnext = map (\<lambda>i. if i < j then f i else None) [0..<height]\<rparr>],
             max_height = m\<rparr>)
    = Some \<lparr>compare = c,
            nodes = \<lparr>nkey = k0, nnext = map (\<lambda>i. if i < Suc j then Some (Suc (length rest)) else f i) [0..<N]\<rparr>
                      # rest @ [\<lparr>nkey = target,
                                nnext = map (\<lambda>i. if i < Suc j then f i else None) [0..<height]\<rparr>],
            max_height = m\<rparr>"
proof -
  have jN: "j < N" using assms(2,3) by simp
  have entry_10: "(map (\<lambda>i. if i < j then f i else None) [0..<height])[j := f j]
      = map (\<lambda>i. if i < Suc j then f i else None) [0..<height]"
    using assms(2) by (auto intro!: nth_equalityI simp: nth_list_update less_Suc_eq)
  have entry_20: "(map (\<lambda>i. if i < j then Some (Suc (length rest)) else f i) [0..<N])[j := Some (Suc (length rest))]
      = map (\<lambda>i. if i < Suc j then Some (Suc (length rest)) else f i) [0..<N]"
    using jN by (auto intro!: nth_equalityI simp: nth_list_update less_Suc_eq)
  show ?thesis
    using assms(1,2) jN
    by (simp add: Insert_level_def Node_Next_def Node_SetNext_def nth_append entry_10 entry_20)
qed

lemma Insert_levels:
  assumes "\<forall>i < height. prev i = Some 0" and "j \<le> height" and "height \<le> N"
   
  shows "fold (Insert_level (Suc (length rest)) prev) [0..<j]
      (Some \<lparr>compare = c,
             nodes = \<lparr>nkey = k0, nnext = map f [0..<N]\<rparr>
                       # rest @ [\<lparr>nkey = target, nnext = replicate height None\<rparr>],
             max_height = m\<rparr>)
    = Some \<lparr>compare = c,
            nodes = \<lparr>nkey = k0, nnext = map (\<lambda>i. if i < j then Some (Suc (length rest)) else f i) [0..<N]\<rparr>
                      # rest @ [\<lparr>nkey = target,
                                nnext = map (\<lambda>i. if i < j then f i else None) [0..<height]\<rparr>],
            max_height = m\<rparr>"
  using assms(2)
proof (induction j)
  case 0
  have "replicate height None = map (\<lambda>i. None :: nat option) [0..<height]"
    by (simp add: map_replicate_const)
  then show ?case by simp
next
  case (Suc j)
  have j: "j < height" using Suc.prems by simp
  have p: "prev j = Some 0" using assms(1) j by simp
  show ?case
    using Suc.IH Suc.prems p j assms(3)
      Insert_level_step [where prev = prev and j = j and height = height and N = N
        and rest = rest and c = c and ?k0.0 = k0 and f = f and target = target and m = m]
    by simp
qed

lemma SkipList_Insert_front:
  assumes sl: "sl = \<lparr>compare = c, nodes = \<lparr>nkey = k0, nnext = map f [0..<12]\<rparr> # rest,
                      max_height = mh\<rparr>"
    and mh: "1 \<le> mh" "mh \<le> 12" and h: "1 \<le> height" "height \<le> 12"
    and front: "\<forall>l < mh. KeyIsAfterNode sl target (f l) = Some False"
  shows "SkipList_Insert sl target height
     = Some \<lparr>compare = c,
             nodes = \<lparr>nkey = k0,
                      nnext = map (\<lambda>i. if i < height then Some (Suc (length rest)) else f i) [0..<12]\<rparr>
                       # rest @ [\<lparr>nkey = target, nnext = map f [0..<height]\<rparr>],
             max_height = max mh height\<rparr>"
proof -
  have lv: "mh - 1 < 12" using mh by simp
  have fr: "\<forall>l \<le> mh - 1. KeyIsAfterNode sl target (f l) = Some False" using front mh by simp
  have find: "FindGreaterOrEqual sl target (Some Map.empty)
      = Some (f 0, Some (\<lambda>i. if i \<le> mh - 1 then Some 0 else None))"
    unfolding FindGreaterOrEqual_def head_def
    using FindGreaterOrEqual_loop_head [OF sl lv fr, of "Some Map.empty"] by (simp add: sl)
  define prev1 where "prev1 = (if height > mh
       then fold (\<lambda>i p. p(i \<mapsto> 0)) [mh ..< height] (\<lambda>i. if i \<le> mh - 1 then Some 0 else None)
       else (\<lambda>i. if i \<le> mh - 1 then Some (0::nat) else None))"
  have p1: "\<forall>i < height. prev1 i = Some 0"
    unfolding prev1_def fold_prev_head using mh by auto
  have m: "(if height > mh then height else mh) = max mh height" by simp
  have tail: "map (\<lambda>i. if i < height then f i else None) [0..<height] = map f [0..<height]"
    by simp
  have "SkipList_Insert sl target height
      = fold (Insert_level (Suc (length rest)) prev1) [0..<height]
          (Some \<lparr>compare = c,
             nodes = \<lparr>nkey = k0, nnext = map f [0..<12]\<rparr>
                       # rest @ [\<lparr>nkey = target, nnext = replicate height None\<rparr>],
             max_height = max mh height\<rparr>)"
    unfolding SkipList_Insert_def find prev1_def head_def
    by (simp add: sl Let_def max_def)
  also have "\<dots> = Some \<lparr>compare = c,
            nodes = \<lparr>nkey = k0, nnext = map (\<lambda>i. if i < height then Some (Suc (length rest)) else f i) [0..<12]\<rparr>
                      # rest @ [\<lparr>nkey = target,
                                nnext = map (\<lambda>i. if i < height then f i else None) [0..<height]\<rparr>],
            max_height = max mh height\<rparr>"
    using Insert_levels [OF p1 order_refl h(2)] .
  finally show ?thesis unfolding tail .
qed

lemma scenario_entries:
  "MemTable_entry 10 kTypeValue [0x6b] [0x76, 0x31] = entry_10"
  "MemTable_entry 20 kTypeValue [0x6b] [0x76, 0x32] = entry_20"
  "MemTable_entry 30 kTypeDeletion [0x6b] [] = entry_30"
  by (simp_all add: MemTable_entry_def EncodeVarint32_def EncodeFixed64_def kTypeValue_def
      kTypeDeletion_def entry_10_def entry_20_def entry_30_def)

lemma scenario_lookup_keys:
  "LookupKey_new [0x6b] 25 = \<lparr>lk_bytes = [9, 0x6b, 1, 25, 0, 0, 0, 0, 0, 0], kstart = 1\<rparr>"
  "LookupKey_new [0x6b] 35 = \<lparr>lk_bytes = [9, 0x6b, 1, 35, 0, 0, 0, 0, 0, 0], kstart = 1\<rparr>"
  "LookupKey_new [0x6b] 5 = \<lparr>lk_bytes = [9, 0x6b, 1, 5, 0, 0, 0, 0, 0, 0], kstart = 1\<rparr>"
  by (simp_all add: LookupKey_new_def EncodeVarint32_def EncodeFixed64_def kTypeValue_def
      kValueTypeForSeek_def PackSequenceAndType_def)

lemmas memtable_cmp_defs = KeyComparator_def GetLengthPrefixedSlice_def GetVarint32Ptr_def
  InternalKeyComparator_Compare_def ExtractUserKey_def BytewiseComparator_def Slice_compare_def
  DecodeFixed64_def DecodeFixed32_def entry_10_def entry_20_def entry_30_def Let_def

lemma cmp_entries:
  "KeyComparator BytewiseComparator entry_10 entry_20 = Some 1"
  "KeyComparator BytewiseComparator entry_10 entry_30 = Some 1"
  "KeyComparator BytewiseComparator entry_20 entry_30 = Some 1"
  by (simp_all add: memtable_cmp_defs)

lemma cmp_35:
  "KeyComparator BytewiseComparator entry_10 [9, 0x6b, 1, 35, 0, 0, 0, 0, 0, 0] = Some 1"
  "KeyComparator BytewiseComparator entry_20 [9, 0x6b, 1, 35, 0, 0, 0, 0, 0, 0] = Some 1"
  "KeyComparator BytewiseComparator entry_30 [9, 0x6b, 1, 35, 0, 0, 0, 0, 0, 0] = Some 1"
  by (simp_all add: memtable_cmp_defs)

lemma cmp_25:
  "KeyComparator BytewiseComparator entry_10 [9, 0x6b, 1, 25, 0, 0, 0, 0, 0, 0] = Some 1"
  "KeyComparator BytewiseComparator entry_20 [9, 0x6b, 1, 25, 0, 0, 0, 0, 0, 0] = Some 1"
  "KeyComparator BytewiseComparator entry_30 [9, 0x6b, 1, 25, 0, 0, 0, 0, 0, 0] = Some (-1)"
  by (simp_all add: memtable_cmp_defs)

lemma cmp_5:
  "KeyComparator BytewiseComparator entry_10 [9, 0x6b, 1, 5, 0, 0, 0, 0, 0, 0] = Some (-1)"
  "KeyComparator BytewiseComparator entry_20 [9, 0x6b, 1, 5, 0, 0, 0, 0, 0, 0] = Some (-1)"
  "KeyComparator BytewiseComparator entry_30 [9, 0x6b, 1, 5, 0, 0, 0, 0, 0, 0] = Some (-1)"
  by (simp_all add: memtable_cmp_defs)

lemma KeyIsAfterNode_None: "KeyIsAfterNode sl target None = Some False"
  by (simp add: KeyIsAfterNode_def)

lemma scenario_inserts:
  assumes "1 \<le> h1" "h1 \<le> 12" "1 \<le> h2" "h2 \<le> 12" "1 \<le> h3" "h3 \<le> 12"
  shows "\<exists>t1 t2.
       SkipList_Insert (SkipList_new (KeyComparator BytewiseComparator)) entry_10 h1 = Some t1
     \<and> SkipList_Insert t1 entry_20 h2 = Some t2
     \<and> SkipList_Insert t2 entry_30 h3 = Some (scenario_table h1 h2 h3)"
proof -
  let ?c = "KeyComparator BytewiseComparator"
  let ?f0 = "\<lambda>i::nat. None :: nat option"
  let ?f1 = "\<lambda>i. if i < h1 then Some (Suc 0) else None"
  let ?f2 = "\<lambda>i. if i < h2 then Some (Suc (Suc 0)) else if i < h1 then Some (Suc 0) else None"
  let ?n1 = "\<lparr>nkey = entry_10, nnext = map ?f0 [0..<h1]\<rparr>"
  let ?n2 = "\<lparr>nkey = entry_20, nnext = map ?f1 [0..<h2]\<rparr>"
  let ?t0 = "\<lparr>compare = ?c, nodes = \<lparr>nkey = [], nnext = map ?f0 [0..<12]\<rparr> # [], max_height = 1\<rparr>"
  let ?t1 = "\<lparr>compare = ?c, nodes = \<lparr>nkey = [], nnext = map ?f1 [0..<12]\<rparr> # [?n1],
              max_height = max 1 h1\<rparr>"
  let ?t2 = "\<lparr>compare = ?c, nodes = \<lparr>nkey = [], nnext = map ?f2 [0..<12]\<rparr> # [?n1, ?n2],
              max_height = max (max 1 h1) h2\<rparr>"
  have new: "SkipList_new ?c = ?t0"
    by (simp add: SkipList_new_def kMaxHeight_def map_replicate_const)
  have k0: "\<forall>l < 1. KeyIsAfterNode ?t0 entry_10 (?f0 l) = Some False"
    by (simp add: KeyIsAfterNode_None)
  have i1: "SkipList_Insert ?t0 entry_10 h1 = Some ?t1"
    using SkipList_Insert_front [OF refl _ _ assms(1,2) k0] by simp
  have k1: "\<forall>l < max 1 h1. KeyIsAfterNode ?t1 entry_20 (?f1 l) = Some False"
    by (simp add: KeyIsAfterNode_def cmp_entries)
  have i2: "SkipList_Insert ?t1 entry_20 h2 = Some ?t2"
    using SkipList_Insert_front [OF refl _ _ assms(3,4) k1] assms(2) by simp
  have k2: "\<forall>l < max (max 1 h1) h2. KeyIsAfterNode ?t2 entry_30 (?f2 l) = Some False"
    by (simp add: KeyIsAfterNode_def cmp_entries)
  have i3: "SkipList_Insert ?t2 entry_30 h3 = Some (scenario_table h1 h2 h3)"
    using SkipList_Insert_front [OF refl _ _ assms(5,6) k2] assms(2,4)
    by (simp add: scenario_table_def numeral_3_eq_3 numeral_2_eq_2)
  show ?thesis using new i1 i2 i3 by simp
qed

lemma scenario_next:
  "l < 12 \<Longrightarrow> Node_Next (scenario_table h1 h2 h3) 0 l
      = Some (if l < h3 then Some 3 else if l < h2 then Some 2 else if l < h1 then Some (Suc 0) else None)"
  "l < h1 \<Longrightarrow> Node_Next (scenario_table h1 h2 h3) (Suc 0) l = Some None"
  "l < h2 \<Longrightarrow> Node_Next (scenario_table h1 h2 h3) 2 l = Some (if l < h1 then Some (Suc 0) else None)"
  "l < h3 \<Longrightarrow> Node_Next (scenario_table h1 h2 h3) 3 l
      = Some (if l < h2 then Some 2 else if l < h1 then Some (Suc 0) else None)"
  by (simp_all add: Node_Next_def scenario_table_def)

lemma scenario_after:
  "KeyIsAfterNode (scenario_table h1 h2 h3) target (Some (Suc 0))
     = map_option (\<lambda>r. r < 0) (KeyComparator BytewiseComparator entry_10 target)"
  "KeyIsAfterNode (scenario_table h1 h2 h3) target (Some 2)
     = map_option (\<lambda>r. r < 0) (KeyComparator BytewiseComparator entry_20 target)"
  "KeyIsAfterNode (scenario_table h1 h2 h3) target (Some 3)
     = map_option (\<lambda>r. r < 0) (KeyComparator BytewiseComparator entry_30 target)"
  by (simp_all add: KeyIsAfterNode_def scenario_table_def)

text \<open>Sequence 35: every entry is at or after the lookup key.\<close>

lemma find_35:
  assumes "1 \<le> h1" "h1 \<le> 12" "1 \<le> h2" "h2 \<le> 12" "1 \<le> h3" "h3 \<le> 12"
  shows "FindGreaterOrEqual (scenario_table h1 h2 h3) [9, 0x6b, 1, 35, 0, 0, 0, 0, 0, 0] None
     = Some (Some 3, None)"
proof -
  let ?S = "scenario_table h1 h2 h3"
  let ?L = "[9, 0x6b, 1, 35, 0, 0, 0, 0, 0, 0] :: bytes"
  have "FindGreaterOrEqual_loop ?S ?L 0 l None = Some (Some 3, None)" if "l < 12" for l
    using that
  proof (induction l)
    case 0
    show ?case
      using assms by (subst FindGreaterOrEqual_loop.simps)
        (simp add: scenario_next scenario_after cmp_35)
  next
    case (Suc l)
    then have ih: "FindGreaterOrEqual_loop ?S ?L 0 l None = Some (Some 3, None)" by simp
    show ?case
      using Suc.prems
      by (subst FindGreaterOrEqual_loop.simps)
        (simp add: scenario_next scenario_after cmp_35 KeyIsAfterNode_None ih)
  qed
  moreover have "max_height ?S - 1 < 12" using assms by (simp add: scenario_table_def)
  ultimately show ?thesis by (simp add: FindGreaterOrEqual_def head_def)
qed

text \<open>Sequence 25: the entry of sequence 30 is before the lookup key, the others are not.\<close>

lemma find_25:
  assumes "1 \<le> h1" "h1 \<le> 12" "1 \<le> h2" "h2 \<le> 12" "1 \<le> h3" "h3 \<le> 12"
  shows "FindGreaterOrEqual (scenario_table h1 h2 h3) [9, 0x6b, 1, 25, 0, 0, 0, 0, 0, 0] None
     = Some (Some 2, None)"
proof -
  let ?S = "scenario_table h1 h2 h3"
  let ?L = "[9, 0x6b, 1, 25, 0, 0, 0, 0, 0, 0] :: bytes"
  have "(l < h3 \<longrightarrow> FindGreaterOrEqual_loop ?S ?L 3 l None = Some (Some 2, None))
      \<and> (l < 12 \<longrightarrow> FindGreaterOrEqual_loop ?S ?L 0 l None = Some (Some 2, None))" for l
  proof (induction l)
    case 0
    have 3: "FindGreaterOrEqual_loop ?S ?L 3 0 None = Some (Some 2, None)"
      using assms by (subst FindGreaterOrEqual_loop.simps)
        (simp add: scenario_next scenario_after cmp_25)
    have 0: "FindGreaterOrEqual_loop ?S ?L 0 0 None = Some (Some 2, None)"
      using assms by (subst FindGreaterOrEqual_loop.simps)
        (simp add: scenario_next scenario_after cmp_25 3)
    show ?case using 3 0 by simp
  next
    case (Suc l)
    have 3: "FindGreaterOrEqual_loop ?S ?L 3 (Suc l) None = Some (Some 2, None)"
      if "Suc l < h3"
      using that Suc
      by (subst FindGreaterOrEqual_loop.simps)
        (simp add: scenario_next scenario_after cmp_25 KeyIsAfterNode_None)
    have 0: "FindGreaterOrEqual_loop ?S ?L 0 (Suc l) None = Some (Some 2, None)"
      if "Suc l < 12"
      using that Suc 3
      by (subst FindGreaterOrEqual_loop.simps)
        (simp add: scenario_next scenario_after cmp_25 KeyIsAfterNode_None)
    show ?case using 3 0 by simp
  qed
  moreover have "max_height ?S - 1 < 12" using assms by (simp add: scenario_table_def)
  ultimately show ?thesis by (simp add: FindGreaterOrEqual_def head_def)
qed

text \<open>Sequence 5: every entry is before the lookup key.\<close>

lemma find_5:
  assumes "1 \<le> h1" "h1 \<le> 12" "1 \<le> h2" "h2 \<le> 12" "1 \<le> h3" "h3 \<le> 12"
  shows "FindGreaterOrEqual (scenario_table h1 h2 h3) [9, 0x6b, 1, 5, 0, 0, 0, 0, 0, 0] None
     = Some (None, None)"
proof -
  let ?S = "scenario_table h1 h2 h3"
  let ?L = "[9, 0x6b, 1, 5, 0, 0, 0, 0, 0, 0] :: bytes"
  have "(l < h1 \<longrightarrow> FindGreaterOrEqual_loop ?S ?L (Suc 0) l None = Some (None, None))
      \<and> (l < h2 \<longrightarrow> FindGreaterOrEqual_loop ?S ?L 2 l None = Some (None, None))
      \<and> (l < h3 \<longrightarrow> FindGreaterOrEqual_loop ?S ?L 3 l None = Some (None, None))
      \<and> (l < 12 \<longrightarrow> FindGreaterOrEqual_loop ?S ?L 0 l None = Some (None, None))" for l
  proof (induction l)
    case 0
    have 1: "FindGreaterOrEqual_loop ?S ?L (Suc 0) 0 None = Some (None, None)"
      using assms by (subst FindGreaterOrEqual_loop.simps)
        (simp add: scenario_next scenario_after cmp_5 KeyIsAfterNode_None)
    have 2: "FindGreaterOrEqual_loop ?S ?L 2 0 None = Some (None, None)"
      using assms by (subst FindGreaterOrEqual_loop.simps)
        (simp add: scenario_next scenario_after cmp_5 KeyIsAfterNode_None 1)
    have 3: "FindGreaterOrEqual_loop ?S ?L 3 0 None = Some (None, None)"
      using assms by (subst FindGreaterOrEqual_loop.simps)
        (simp add: scenario_next scenario_after cmp_5 KeyIsAfterNode_None 2)
    have 0: "FindGreaterOrEqual_loop ?S ?L 0 0 None = Some (None, None)"
      using assms by (subst FindGreaterOrEqual_loop.simps)
        (simp add: scenario_next scenario_after cmp_5 KeyIsAfterNode_None 3)
    show ?case using 1 2 3 0 by simp
  next
    case (Suc l)
    have 1: "FindGreaterOrEqual_loop ?S ?L (Suc 0) (Suc l) None = Some (None, None)"
      if "Suc l < h1"
      using that Suc
      by (subst FindGreaterOrEqual_loop.simps)
        (simp add: scenario_next scenario_after cmp_5 KeyIsAfterNode_None)
    have 2: "FindGreaterOrEqual_loop ?S ?L 2 (Suc l) None = Some (None, None)"
      if "Suc l < h2"
      using that Suc 1
      by (subst FindGreaterOrEqual_loop.simps)
        (simp add: scenario_next scenario_after cmp_5 KeyIsAfterNode_None)
    have 3: "FindGreaterOrEqual_loop ?S ?L 3 (Suc l) None = Some (None, None)"
      if "Suc l < h3"
      using that Suc 1 2
      by (subst FindGreaterOrEqual_loop.simps)
        (simp add: scenario_next scenario_after cmp_5 KeyIsAfterNode_None)
    have 0: "FindGreaterOrEqual_loop ?S ?L 0 (Suc l) None = Some (None, None)"
      if "Suc l < 12"
      using that Suc 1 2 3
      by (subst FindGreaterOrEqual_loop.simps)
        (simp add: scenario_next scenario_after cmp_5 KeyIsAfterNode_None)
    show ?case using 1 2 3 0 by simp
  qed
  moreover have "max_height ?S - 1 < 12" using assms by (simp add: scenario_table_def)
  ultimately show ?thesis by (simp add: FindGreaterOrEqual_def head_def)
qed

lemma Get_entry:
  "GetVarint32Ptr (take 5 entry_20) = Some (9, [0x6b, 1, 20, 0])"
  "GetVarint32Ptr (take 5 entry_30) = Some (9, [0x6b, 0, 30, 0])"
  by (simp_all add: GetVarint32Ptr_def entry_20_def entry_30_def)

text \<open>C2: starting from an empty memtable over the bytewise comparator, add user key
  \<open>k\<close> with sequence 10 and value \<open>v1\<close>, then with sequence 20 and value \<open>v2\<close>, then its
  deletion with sequence 30; the three adds succeed whatever heights from 1 to
  \<open>kMaxHeight\<close> the skip list draws for the three nodes.  Then \<open>Get\<close> with the lookup key
  of \<open>k\<close> at sequence 25 returns true and sets the value to \<open>v2\<close> (the status is left
  alone); at sequence 35 it returns true and sets the status to NotFound (the value is left
  alone): the deletion shadows the older values; at sequence 5 it returns false and leaves
  value and status alone: the memtable has nothing for the key at that sequence.\<close>

theorem memtable_shadowing:
  assumes "1 \<le> h1" and "h1 \<le> kMaxHeight" and "1 \<le> h2" and "h2 \<le> kMaxHeight"
    and "1 \<le> h3" and "h3 \<le> kMaxHeight"
  shows "\<exists>m1 m2 m3.
       MemTable_Add (MemTable_new BytewiseComparator) h1 10 kTypeValue [0x6b] [0x76, 0x31] = Some m1
     \<and> MemTable_Add m1 h2 20 kTypeValue [0x6b] [0x76, 0x32] = Some m2
     \<and> MemTable_Add m2 h3 30 kTypeDeletion [0x6b] [] = Some m3
     \<and> MemTable_Get m3 (LookupKey_new [0x6b] 25) val s = Some (True, [0x76, 0x32], s)
     \<and> MemTable_Get m3 (LookupKey_new [0x6b] 35) val s = Some (True, val, NotFound [])
     \<and> MemTable_Get m3 (LookupKey_new [0x6b] 5) val s = Some (False, val, s)"
proof -
  have h: "1 \<le> h1" "h1 \<le> 12" "1 \<le> h2" "h2 \<le> 12" "1 \<le> h3" "h3 \<le> 12"
    using assms by (simp_all add: kMaxHeight_def)
  from scenario_inserts [OF h] obtain t1 t2 where
    i1: "SkipList_Insert (SkipList_new (KeyComparator BytewiseComparator)) entry_10 h1 = Some t1"
    and i2: "SkipList_Insert t1 entry_20 h2 = Some t2"
    and i3: "SkipList_Insert t2 entry_30 h3 = Some (scenario_table h1 h2 h3)"
    by blast
  let ?m = "\<lambda>t. \<lparr>user_comparator = BytewiseComparator, table = t\<rparr>"
  have a1: "MemTable_Add (MemTable_new BytewiseComparator) h1 10 kTypeValue [0x6b] [0x76, 0x31]
      = Some (?m t1)"
    by (simp add: MemTable_Add_def MemTable_new_def scenario_entries i1)
  have a2: "MemTable_Add (?m t1) h2 20 kTypeValue [0x6b] [0x76, 0x32] = Some (?m t2)"
    by (simp add: MemTable_Add_def scenario_entries i2)
  have a3: "MemTable_Add (?m t2) h3 30 kTypeDeletion [0x6b] []
      = Some (?m (scenario_table h1 h2 h3))"
    by (simp add: MemTable_Add_def scenario_entries i3)
  have n2: "nkey (nodes (scenario_table h1 h2 h3) ! 2) = entry_20"
    and n3: "nkey (nodes (scenario_table h1 h2 h3) ! 3) = entry_30"
    and len: "length (nodes (scenario_table h1 h2 h3)) = 4"
    by (simp_all add: scenario_table_def)
  have g25: "MemTable_Get (?m (scenario_table h1 h2 h3)) (LookupKey_new [0x6b] 25) val s
      = Some (True, [0x76, 0x32], s)"
    by (simp add: MemTable_Get_def scenario_lookup_keys memtable_key_def user_key_def find_25 [OF h]
        n2 len Get_entry)
      (simp add: entry_20_def BytewiseComparator_def Slice_compare_def DecodeFixed64_def
        DecodeFixed32_def kTypeValue_def GetLengthPrefixedSlice_def GetVarint32Ptr_def)
  have g35: "MemTable_Get (?m (scenario_table h1 h2 h3)) (LookupKey_new [0x6b] 35) val s
      = Some (True, val, NotFound [])"
    by (simp add: MemTable_Get_def scenario_lookup_keys memtable_key_def user_key_def find_35 [OF h]
        n3 len Get_entry)
      (simp add: entry_30_def BytewiseComparator_def Slice_compare_def DecodeFixed64_def
        DecodeFixed32_def kTypeValue_def kTypeDeletion_def)
  have g5: "MemTable_Get (?m (scenario_table h1 h2 h3)) (LookupKey_new [0x6b] 5) val s
      = Some (False, val, s)"
    by (simp add: MemTable_Get_def scenario_lookup_keys memtable_key_def find_5 [OF h])
  show ?thesis using a1 a2 a3 g25 g35 g5 by blast
qed

theorem memtable_shadowing_witness:
  "(1::nat) \<le> 1 \<and> (1::nat) \<le> kMaxHeight \<and> (1::nat) \<le> 3 \<and> (3::nat) \<le> kMaxHeight
   \<and> (1::nat) \<le> 2 \<and> (2::nat) \<le> kMaxHeight
   \<and> (\<exists>m1 m2 m3.
       MemTable_Add (MemTable_new BytewiseComparator) 1 10 kTypeValue [0x6b] [0x76, 0x31] = Some m1
     \<and> MemTable_Add m1 3 20 kTypeValue [0x6b] [0x76, 0x32] = Some m2
     \<and> MemTable_Add m2 2 30 kTypeDeletion [0x6b] [] = Some m3
     \<and> MemTable_Get m3 (LookupKey_new [0x6b] 25) [] OK = Some (True, [0x76, 0x32], OK)
     \<and> MemTable_Get m3 (LookupKey_new [0x6b] 35) [] OK = Some (True, [], NotFound [])
     \<and> MemTable_Get m3 (LookupKey_new [0x6b] 5) [] OK = Some (False, [], OK))"
proof -
  have h: "(1::nat) \<le> 1" "(1::nat) \<le> kMaxHeight" "(1::nat) \<le> 3" "(3::nat) \<le> kMaxHeight"
    "(1::nat) \<le> 2" "(2::nat) \<le> kMaxHeight"
    by (simp_all add: kMaxHeight_def)
  show ?thesis
    using memtable_shadowing [OF h, of "[]" OK] h by blast
qed

section \<open>Varint round trip\<close>

lemma and_127: "(w :: 'a::len word) AND 127 = take_bit 7 w"
  by (simp add: take_bit_eq_mask mask_eq_exp_minus_1)

lemma bit_128: "bit (128 :: 'a::len word) n \<longleftrightarrow> n = 7 \<and> 7 < LENGTH('a)"
proof -
  have "(128 :: 'a word) = 2 ^ 7" by simp
  then show ?thesis by (auto simp only: bit_exp_iff possible_bit_word) 
qed

lemma byte_low7: "(ucast (ucast ((v AND 127) OR 128 :: 64 word) :: byte) :: 64 word) AND 127 = v AND 127"
  unfolding and_127 
  apply (rule bit_eqI)
  apply (simp only: bit_128 bit_simps)
  apply auto
  done

lemma byte_high: "(ucast (ucast ((v AND 127) OR 128 :: 64 word) :: byte) :: 64 word) AND 128 \<noteq> 0"
proof -
  have "bit ((ucast (ucast ((v AND 127) OR 128 :: 64 word) :: byte) :: 64 word) AND 128) 7"
    by (simp only: bit_simps bit_128) simp
  then show ?thesis by auto
qed

lemma lt128: "\<not> 128 \<le> (v :: 64 word) \<Longrightarrow> take_bit 7 v = v"
proof -
  assume "\<not> 128 \<le> v"
  then have "v < 2 ^ 7" by simp
  then show ?thesis by (simp add: take_bit_eq_mask less_mask_eq)
qed

lemma byte_last: "\<not> 128 \<le> v \<Longrightarrow> (ucast (ucast (v :: 64 word) :: byte) :: 64 word) = v"
proof -
  assume a: "\<not> 128 \<le> v"
  have "(ucast (ucast (take_bit 7 v :: 64 word) :: byte) :: 64 word) = take_bit 7 v"
    by (rule bit_eqI) (auto simp: bit_simps)
  then show ?thesis using lt128 [OF a] by simp
qed

lemma byte_last_high: "\<not> 128 \<le> v \<Longrightarrow> (ucast (ucast (v :: 64 word) :: byte) :: 64 word) AND 128 = 0"
proof -
  assume a: "\<not> 128 \<le> v"
  have "take_bit 7 v AND 128 = 0"
    apply (rule bit_eqI)
    apply (simp only: bit_simps bit_128)
    apply auto
    done
  then show ?thesis using lt128 [OF a] byte_last [OF a] by simp
qed

lemma take_bit_step:
  "take_bit n (V :: 64 word) OR push_bit n (take_bit 7 (drop_bit n V)) = take_bit (n + 7) V"
  by (rule bit_eqI) (auto simp: bit_simps)

lemma take_bit_final:
  "take_bit n (V :: 64 word) OR push_bit n (drop_bit n V) = V"
proof (rule bit_eqI)
  fix k
  assume "possible_bit TYPE(64 word) k"
  then show "bit (take_bit n V OR push_bit n (drop_bit n V)) k = bit V k"
    by (cases "k < n") (auto simp: bit_simps)
qed

lemma drop_bit_nonzero_lt: "drop_bit n (V :: 64 word) \<noteq> 0 \<Longrightarrow> n < 64"
  using drop_bit_word_beyond [of n V] by (cases "n < 64") auto

lemma ge128_drop7: "128 \<le> (v :: 64 word) \<Longrightarrow> drop_bit 7 v \<noteq> 0"
proof
  assume a: "128 \<le> v" and z: "drop_bit 7 v = 0"
  have "unat (drop_bit 7 v) = unat v div 2 ^ 7"
    by (metis unat_drop_bit_eq drop_bit_eq_div)
  then have "unat v div 128 = 0" using z by simp
  moreover have "128 \<le> unat v" using a by (simp add: word_le_nat_alt)
  ultimately show False by simp
qed

lemma byte_low7': "(ucast (ucast ((v AND 127) OR 128 :: 64 word) :: byte) :: 64 word) AND 127 = take_bit 7 v"
  using byte_low7 [of v] by (simp only: and_127)

lemma GetVarint64Ptr_loop_cont:
  assumes "n \<le> 63" and "128 \<le> v"
  shows "GetVarint64Ptr_loop n r (EncodeVarint64 v @ rest) =
         GetVarint64Ptr_loop (n + 7) (r OR push_bit n (take_bit 7 v)) (EncodeVarint64 (drop_bit 7 v) @ rest)"
proof -
  have "EncodeVarint64 v = ucast ((v AND 127) OR 128) # EncodeVarint64 (drop_bit 7 v)"
    using assms(2) by (subst EncodeVarint64.simps) simp
  then show ?thesis
    using assms(1) byte_high [of v]
    by (simp only: append_Cons GetVarint64Ptr_loop.simps Let_def byte_low7' if_True if_False simp_thms)
qed

lemma GetVarint64Ptr_loop_final:
  assumes "n \<le> 63" and "\<not> 128 \<le> v"
  shows "GetVarint64Ptr_loop n r (EncodeVarint64 v @ rest) = Some (r OR push_bit n v, rest)"
proof -
  have "EncodeVarint64 v = [ucast v]"
    using assms(2) by (subst EncodeVarint64.simps) simp
  then show ?thesis
    using assms(1) byte_last_high [OF assms(2)] byte_last [OF assms(2)]
    by (simp only: append_Cons append_Nil GetVarint64Ptr_loop.simps Let_def if_True if_False simp_thms)
qed

lemma GetVarint64Ptr_loop_Encode:
  "v = drop_bit n V \<Longrightarrow> (n = 0 \<or> v \<noteq> 0) \<Longrightarrow>
   GetVarint64Ptr_loop n (take_bit n V) (EncodeVarint64 v @ rest) = Some (V, rest)"
proof (induction v arbitrary: n rule: EncodeVarint64.induct)
  case (1 v)
  have n63: "n \<le> 63" using 1(2,3) drop_bit_nonzero_lt [of n V] by auto
  show ?case
  proof (cases "128 \<le> v")
    case True
    have nz: "drop_bit 7 v \<noteq> 0" using True by (rule ge128_drop7)
    have d: "drop_bit 7 v = drop_bit (n + 7) V"
      using 1(2) by (simp add: drop_bit_drop_bit add.commute)
    have "GetVarint64Ptr_loop (n + 7) (take_bit (n + 7) V) (EncodeVarint64 (drop_bit 7 v) @ rest) = Some (V, rest)"
      using 1(1) [OF True d] nz by simp
    moreover have "take_bit n V OR push_bit n (take_bit 7 v) = take_bit (n + 7) V"
      unfolding 1(2) by (rule take_bit_step)
    ultimately show ?thesis
      using GetVarint64Ptr_loop_cont [OF n63 True, of "take_bit n V" rest] by simp
  next
    case False
    have "take_bit n V OR push_bit n v = V"
      unfolding 1(2) by (rule take_bit_final)
    then show ?thesis
      using GetVarint64Ptr_loop_final [OF n63 False, of "take_bit n V" rest] by simp
  qed
qed

lemma GetVarint64_EncodeVarint64: "GetVarint64 (EncodeVarint64 v @ rest) = Some (v, rest)"
  using GetVarint64Ptr_loop_Encode [of v 0 v rest]
  by (simp add: GetVarint64_def GetVarint64Ptr_def)

section \<open>Block handle and footer codec\<close>

lemma EncodeVarint64_length_aux:
  "unat v < 2 ^ (7 * Suc k) \<Longrightarrow> length (EncodeVarint64 v) \<le> Suc k"
proof (induction k arbitrary: v)
  case 0
  then have "\<not> 128 \<le> v" by (simp add: word_le_nat_alt)
  then show ?case by (subst EncodeVarint64.simps) simp
next
  case (Suc k)
  have d: "unat (drop_bit 7 v) = unat v div 2 ^ 7"
    by (metis unat_drop_bit_eq drop_bit_eq_div)
  have "unat v div 2 ^ 7 < 2 ^ (7 * Suc k)"
    using Suc.prems by (simp add: less_mult_imp_div_less power_add)
  then have "length (EncodeVarint64 (drop_bit 7 v)) \<le> Suc k"
    using Suc.IH d by simp
  then show ?case by (subst EncodeVarint64.simps) simp
qed

lemma EncodeVarint64_length: "length (EncodeVarint64 v) \<le> 10"
proof -
  have "unat v < 2 ^ 64" using unsigned_less [of v] by simp
  then have "unat v < 2 ^ (7 * Suc 9)" by simp
  then show ?thesis using EncodeVarint64_length_aux [of v 9] by simp
qed

lemma BlockHandle_roundtrip:
  "BlockHandle_DecodeFrom h0 (BlockHandle_EncodeTo [] h @ rest) = (OK, h, rest)"
  by (simp add: BlockHandle_DecodeFrom_def BlockHandle_EncodeTo_def PutVarint64_def
      GetVarint64_EncodeVarint64)

lemma BlockHandle_EncodeTo_append:
  "BlockHandle_EncodeTo dst h = dst @ BlockHandle_EncodeTo [] h"
  by (simp add: BlockHandle_EncodeTo_def PutVarint64_def)

lemma BlockHandle_EncodeTo_length: "length (BlockHandle_EncodeTo [] h) \<le> 20"
  using EncodeVarint64_length [of "h_offset h"] EncodeVarint64_length [of "h_size h"]
  by (simp add: BlockHandle_EncodeTo_def PutVarint64_def)

lemma magic_lo: "EncodeFixed32 (ucast (kTableMagicNumber AND 0xffffffff)) = [0x57, 0xfb, 0x80, 0x8b]"
  by (simp add: EncodeFixed32_def kTableMagicNumber_def)

lemma magic_hi: "EncodeFixed32 (ucast (drop_bit 32 kTableMagicNumber)) = [0x24, 0x75, 0x47, 0xdb]"
  by (simp add: EncodeFixed32_def kTableMagicNumber_def)

lemma magic_decode:
  "push_bit 32 (ucast (DecodeFixed32 [0x24, 0x75, 0x47, 0xdb]) :: 64 word)
     OR ucast (DecodeFixed32 [0x57, 0xfb, 0x80, 0x8b]) = kTableMagicNumber"
  by (simp add: DecodeFixed32_def kTableMagicNumber_def)


lemma Footer_EncodeTo_unfold:
  "Footer_EncodeTo [] f =
     resize 40 (BlockHandle_EncodeTo [] (metaindex_handle f) @ BlockHandle_EncodeTo [] (index_handle f))
       @ [0x57, 0xfb, 0x80, 0x8b] @ [0x24, 0x75, 0x47, 0xdb]"
proof -
  have k: "2 * kMaxEncodedLength = 40" by (simp add: kMaxEncodedLength_def)
  show ?thesis
    unfolding Footer_EncodeTo_def Let_def PutFixed32_def k magic_lo magic_hi
    by (subst BlockHandle_EncodeTo_append) simp
qed

lemma resize_pad:
  "length s \<le> n \<Longrightarrow> resize n s = s @ replicate (n - length s) 0"
  by (simp add: resize_def)


lemma Footer_roundtrip:
  "length (Footer_EncodeTo [] f) = 48 \<and> Footer_DecodeFrom f0 (Footer_EncodeTo [] f) = (OK, f, [])"
proof -
  let ?a = "BlockHandle_EncodeTo [] (metaindex_handle f)"
  let ?b = "BlockHandle_EncodeTo [] (index_handle f)"
  let ?m = "[0x57, 0xfb, 0x80, 0x8b, 0x24, 0x75, 0x47, 0xdb] :: bytes"
  define pad :: bytes where "pad = replicate (40 - length (?a @ ?b)) 0"
  have l: "length (?a @ ?b) \<le> 40"
    using BlockHandle_EncodeTo_length [of "metaindex_handle f"]
      BlockHandle_EncodeTo_length [of "index_handle f"] by simp
  have e: "Footer_EncodeTo [] f = (?a @ ?b @ pad) @ ?m"
    unfolding Footer_EncodeTo_unfold resize_pad [OF l] pad_def by simp
  have lp: "length (?a @ ?b @ pad) = 40" using l by (simp add: pad_def)
  have len: "length (Footer_EncodeTo [] f) = 48" unfolding e using lp by simp
  have d40: "drop 40 (Footer_EncodeTo [] f) = ?m"
    unfolding e using lp by (simp only: drop_append) simp
  have d48: "drop 48 (Footer_EncodeTo [] f) = []" using len by simp
  have mg: "push_bit 32 (ucast (DecodeFixed32 (drop 4 ?m)) :: 64 word)
     OR ucast (DecodeFixed32 ?m) = kTableMagicNumber"
    by (simp add: DecodeFixed32_def kTableMagicNumber_def)
  have d1: "BlockHandle_DecodeFrom (metaindex_handle f0) (Footer_EncodeTo [] f)
            = (OK, metaindex_handle f, ?b @ pad @ ?m)"
    unfolding e using BlockHandle_roundtrip [of "metaindex_handle f0" "metaindex_handle f" "?b @ pad @ ?m"]
    by simp
  have d2: "BlockHandle_DecodeFrom (index_handle f0) (?b @ pad @ ?m)
            = (OK, index_handle f, pad @ ?m)"
    by (rule BlockHandle_roundtrip)
  have k: "kEncodedLength - 8 = 40" "kEncodedLength = 48"
    by (simp_all add: kEncodedLength_def kMaxEncodedLength_def)
  have d44: "drop 44 (Footer_EncodeTo [] f) = [0x24, 0x75, 0x47, 0xdb]"
    using arg_cong [OF d40, of "drop 4"] by simp
  have mg': "push_bit 32 (ucast (DecodeFixed32 [0x24, 0x75, 0x47, 0xdb]) :: 64 word)
     OR ucast (DecodeFixed32 ?m) = kTableMagicNumber"
    using mg by simp
  have "Footer_DecodeFrom f0 (Footer_EncodeTo [] f) = (OK, f, [])"
    unfolding Footer_DecodeFrom_def Let_def k
    by (simp add: d40 d44 mg' d1 d2 d48 ok_def)
  then show ?thesis using len by simp
qed

lemma ucast_and_ff: "(ucast ((x :: 'a::len word) AND 0xff) :: byte) = ucast x"
proof -
  have "x AND 0xff = take_bit 8 x" by (simp add: take_bit_eq_mask mask_eq_exp_minus_1)
  then show ?thesis by (simp only:) (rule bit_eqI, auto simp: bit_simps)
qed

lemma EncodeFixed32_DecodeFixed32:
  "EncodeFixed32 (DecodeFixed32 (a # b # c # d # rest)) = [a, b, c, d]"
proof -
  let ?X = "(ucast a :: 32 word) OR push_bit 8 (ucast b) OR push_bit 16 (ucast c) OR push_bit 24 (ucast d)"
  have 0: "(ucast ?X :: byte) = a" by (rule bit_eqI) (auto simp: bit_simps)
  have 1: "(ucast (drop_bit 8 ?X) :: byte) = b" by (rule bit_eqI) (auto simp: bit_simps dest: bit_imp_le_length)
  have 2: "(ucast (drop_bit 16 ?X) :: byte) = c" by (rule bit_eqI) (auto simp: bit_simps dest: bit_imp_le_length)
  have 3: "(ucast (drop_bit 24 ?X) :: byte) = d" by (rule bit_eqI) (auto simp: bit_simps dest: bit_imp_le_length)
  have "DecodeFixed32 (a # b # c # d # rest) = ?X" by (simp add: DecodeFixed32_def)
  then show ?thesis
    unfolding EncodeFixed32_def ucast_and_ff using 0 1 2 3 by (simp only:)
qed

lemma lo_of_magic: "(ucast (push_bit 32 (ucast (hi :: 32 word) :: 64 word) OR ucast (lo :: 32 word)) :: 32 word) = lo"
  by (rule bit_eqI) (auto simp: bit_simps)

lemma hi_of_magic: "(ucast (drop_bit 32 (push_bit 32 (ucast (hi :: 32 word) :: 64 word) OR ucast (lo :: 32 word))) :: 32 word) = hi"
  by (rule bit_eqI) (auto simp: bit_simps dest: bit_imp_le_length)

lemma magic_bytes_unique:
  assumes "length m = 8"
    and "push_bit 32 (ucast (DecodeFixed32 (drop 4 m)) :: 64 word) OR ucast (DecodeFixed32 m) = kTableMagicNumber"
  shows "m = [0x57, 0xfb, 0x80, 0x8b, 0x24, 0x75, 0x47, 0xdb]"
proof -
  obtain a b c d e f g h where m: "m = [a, b, c, d, e, f, g, h]"
    using assms(1) by (auto simp: length_Suc_conv eval_nat_numeral)
  have lo: "DecodeFixed32 m = ucast kTableMagicNumber"
    using lo_of_magic [of "DecodeFixed32 (drop 4 m)" "DecodeFixed32 m"] assms(2) by simp
  have hi: "DecodeFixed32 (drop 4 m) = ucast (drop_bit 32 kTableMagicNumber)"
    using hi_of_magic [of "DecodeFixed32 (drop 4 m)" "DecodeFixed32 m"] assms(2) by simp
  have "[a, b, c, d] = EncodeFixed32 (ucast kTableMagicNumber)"
    using EncodeFixed32_DecodeFixed32 [of a b c d "[e, f, g, h]"] lo m by simp
  moreover have "[e, f, g, h] = EncodeFixed32 (ucast (drop_bit 32 kTableMagicNumber))"
    using EncodeFixed32_DecodeFixed32 [of e f g h "[]"] hi m by simp
  moreover have "EncodeFixed32 (ucast kTableMagicNumber) = [0x57, 0xfb, 0x80, 0x8b]"
    by (simp add: EncodeFixed32_def kTableMagicNumber_def)
  moreover have "EncodeFixed32 (ucast (drop_bit 32 kTableMagicNumber)) = [0x24, 0x75, 0x47, 0xdb]"
    by (simp add: EncodeFixed32_def kTableMagicNumber_def)
  ultimately show ?thesis using m by simp
qed

lemma Footer_bad_magic:
  assumes "length input = 48"
    and "drop 40 input \<noteq> [0x57, 0xfb, 0x80, 0x8b, 0x24, 0x75, 0x47, 0xdb]"
  shows "Footer_DecodeFrom f0 input = (Corruption ''not an sstable (bad magic number)'', f0, input)"
proof -
  have k: "kEncodedLength - 8 = 40"
    by (simp add: kEncodedLength_def kMaxEncodedLength_def)
  have "length (drop 40 input) = 8" using assms(1) by simp
  then have "push_bit 32 (ucast (DecodeFixed32 (drop 4 (drop 40 input))) :: 64 word)
     OR ucast (DecodeFixed32 (drop 40 input)) \<noteq> kTableMagicNumber"
    using magic_bytes_unique [of "drop 40 input"] assms(2) by blast
  then show ?thesis
    unfolding Footer_DecodeFrom_def Let_def k by (simp only: if_True simp_thms)
qed

text \<open>C7: encoding a block handle and decoding it again gives the handle back (and
  consumes exactly the encoding); the footer encoding is 48 bytes long and decodes to the
  footer it was made from, with status OK and the input consumed; and decoding any 48-byte
  input whose last 8 bytes are not the little-endian magic number
  \<open>0xdb4775248b80fb57\<close> returns a Corruption status.  The round trips hold for every
  handle, in particular for the well-formed ones (fields other than \<open>~0\<close>) that the
  assertions of \<open>BlockHandle::EncodeTo\<close> admit.\<close>

theorem footer_blockhandle_codec:
  "BlockHandle_DecodeFrom h0 (BlockHandle_EncodeTo [] h @ rest) = (OK, h, rest)
   \<and> length (Footer_EncodeTo [] f) = 48
   \<and> Footer_DecodeFrom f0 (Footer_EncodeTo [] f) = (OK, f, [])
   \<and> (length input = 48 \<and> drop 40 input \<noteq> [0x57, 0xfb, 0x80, 0x8b, 0x24, 0x75, 0x47, 0xdb]
        \<longrightarrow> Footer_DecodeFrom f0 input
            = (Corruption ''not an sstable (bad magic number)'', f0, input))"
proof -
  show ?thesis
    using BlockHandle_roundtrip [of h0 h rest] Footer_roundtrip [of f f0]
      Footer_bad_magic [of input f0]
    by simp
qed

theorem footer_blockhandle_codec_witness:
  "length (replicate 48 0 :: bytes) = 48
   \<and> drop 40 (replicate 48 0 :: bytes) \<noteq> [0x57, 0xfb, 0x80, 0x8b, 0x24, 0x75, 0x47, 0xdb]
   \<and> Footer_DecodeFrom
         \<lparr>metaindex_handle = \<lparr>h_offset = 0, h_size = 0\<rparr>, index_handle = \<lparr>h_offset = 0, h_size = 0\<rparr>\<rparr>
         (replicate 48 0)
       = (Corruption ''not an sstable (bad magic number)'',
          \<lparr>metaindex_handle = \<lparr>h_offset = 0, h_size = 0\<rparr>, index_handle = \<lparr>h_offset = 0, h_size = 0\<rparr>\<rparr>,
          replicate 48 0)
   \<and> BlockHandle_DecodeFrom \<lparr>h_offset = 0, h_size = 0\<rparr>
         (BlockHandle_EncodeTo [] \<lparr>h_offset = 300, h_size = 4096\<rparr> @ [])
       = (OK, \<lparr>h_offset = 300, h_size = 4096\<rparr>, [])
   \<and> Footer_DecodeFrom
         \<lparr>metaindex_handle = \<lparr>h_offset = 0, h_size = 0\<rparr>, index_handle = \<lparr>h_offset = 0, h_size = 0\<rparr>\<rparr>
         (Footer_EncodeTo []
           \<lparr>metaindex_handle = \<lparr>h_offset = 300, h_size = 4096\<rparr>,
            index_handle = \<lparr>h_offset = 4401, h_size = 77\<rparr>\<rparr>)
       = (OK, \<lparr>metaindex_handle = \<lparr>h_offset = 300, h_size = 4096\<rparr>,
               index_handle = \<lparr>h_offset = 4401, h_size = 77\<rparr>\<rparr>, [])"
proof -
  have d: "drop 40 (replicate 48 0 :: bytes) \<noteq> [0x57, 0xfb, 0x80, 0x8b, 0x24, 0x75, 0x47, 0xdb]"
  proof -
    have "replicate 8 (0 :: byte) = [0, 0, 0, 0, 0, 0, 0, 0]" by (simp add: numeral_eq_Suc)
    then show ?thesis by simp
  qed
  show ?thesis
    using d footer_blockhandle_codec
      [of "\<lparr>h_offset = 0, h_size = 0\<rparr>" "\<lparr>h_offset = 300, h_size = 4096\<rparr>" "[]"
          "\<lparr>metaindex_handle = \<lparr>h_offset = 300, h_size = 4096\<rparr>,
            index_handle = \<lparr>h_offset = 4401, h_size = 77\<rparr>\<rparr>"
          "\<lparr>metaindex_handle = \<lparr>h_offset = 0, h_size = 0\<rparr>, index_handle = \<lparr>h_offset = 0, h_size = 0\<rparr>\<rparr>"
          "replicate 48 0"]
    by simp
qed

section \<open>Block builder: restart points\<close>

lemma EncodeVarint32_zero: "EncodeVarint32 0 = [0]"
  by (simp add: EncodeVarint32_def)

lemma EncodeVarint32_nonempty: "EncodeVarint32 v \<noteq> []"
  by (simp add: EncodeVarint32_def)

lemma shared_loop_empty: "shared_loop [] k 0 0 = 0"
  by (subst shared_loop.simps) simp

lemma BlockBuilder_Add_buffer:
  "\<exists>shared tl. buffer (BlockBuilder_Add i b k v) = buffer b @ EncodeVarint32 (of_nat shared) @ tl
      \<and> tl \<noteq> []
      \<and> (\<not> counter b < i \<or> last_key b = [] \<longrightarrow> shared = 0)"
proof (cases "counter b < i")
  case True
  let ?s = "shared_loop (last_key b) k (min (length (last_key b)) (length k)) 0"
  have "buffer (BlockBuilder_Add i b k v) = buffer b @ EncodeVarint32 (of_nat ?s)
      @ (EncodeVarint32 (of_nat (length k - ?s)) @ EncodeVarint32 (of_nat (length v))
         @ take (length k - ?s) (drop ?s k) @ v)"
    using True by (simp add: BlockBuilder_Add_def Let_def PutVarint32_def)
  moreover have "last_key b = [] \<longrightarrow> ?s = 0" by (simp add: shared_loop_empty)
  ultimately show ?thesis using True EncodeVarint32_nonempty by blast
next
  case False
  have "buffer (BlockBuilder_Add i b k v) = buffer b @ EncodeVarint32 (of_nat 0)
      @ (EncodeVarint32 (of_nat (length k)) @ EncodeVarint32 (of_nat (length v))
         @ take (length k) k @ v)"
    using False by (simp add: BlockBuilder_Add_def Let_def PutVarint32_def)
  then show ?thesis using EncodeVarint32_nonempty by blast
qed

lemma BlockBuilder_Add_restarts:
  "restarts (BlockBuilder_Add i b k v) =
     (if counter b < i then restarts b else restarts b @ [of_nat (length (buffer b))])"
  by (simp add: BlockBuilder_Add_def Let_def)

lemma BlockBuilder_Add_counter:
  "counter (BlockBuilder_Add i b k v) = (if counter b < i then counter b + 1 else 1)"
  by (simp add: BlockBuilder_Add_def Let_def)

lemma BlockBuilder_AddAll_snoc:
  "BlockBuilder_AddAll i (kvs @ [(k, v)]) = BlockBuilder_Add i (BlockBuilder_AddAll i kvs) k v"
  by (simp add: BlockBuilder_AddAll_def)

lemma BlockBuilder_AddAll_Nil: "BlockBuilder_AddAll i [] = BlockBuilder_new"
  by (simp add: BlockBuilder_AddAll_def)

lemma BlockBuilder_AddAll_length_mono:
  "length (buffer (BlockBuilder_AddAll i (take j kvs))) \<le> length (buffer (BlockBuilder_AddAll i kvs))"
proof (induction kvs arbitrary: j rule: rev_induct)
  case Nil
  then show ?case by simp
next
  case (snoc x xs)
  obtain k v where x: "x = (k, v)" by (cases x)
  show ?case
  proof (cases "j \<le> length xs")
    case True
    then have "take j (xs @ [x]) = take j xs" by simp
    moreover have "length (buffer (BlockBuilder_AddAll i xs)) \<le> length (buffer (BlockBuilder_AddAll i (xs @ [x])))"
      using BlockBuilder_Add_buffer [of i "BlockBuilder_AddAll i xs" k v]
      unfolding x BlockBuilder_AddAll_snoc by auto
    ultimately show ?thesis using snoc.IH [of j] by simp
  next
    case False
    then show ?thesis by simp
  qed
qed


lemma unat_of_nat32: "n < 2 ^ 32 \<Longrightarrow> unat (of_nat n :: 32 word) = n"
  by (simp add: unat_of_nat take_bit_nat_eq_self)

lemma restart_invariant:
  assumes "1 \<le> i"
  shows "length (buffer (BlockBuilder_AddAll i kvs)) < 2 ^ 32 \<Longrightarrow>
     sorted_wrt (<) (restarts (BlockBuilder_AddAll i kvs))
     \<and> (\<forall>r \<in> set (restarts (BlockBuilder_AddAll i kvs)).
           (kvs = [] \<and> r = 0)
           \<or> (\<exists>j < length kvs.
                 unat r = length (buffer (BlockBuilder_AddAll i (take j kvs)))
                 \<and> unat r < length (buffer (BlockBuilder_AddAll i kvs))
                 \<and> buffer (BlockBuilder_AddAll i kvs) ! unat r = 0))"
proof (induction kvs rule: rev_induct)
  case Nil
  show ?case by (simp add: BlockBuilder_AddAll_Nil BlockBuilder_new_def)
next
  case (snoc x xs)
  obtain k v where x: "x = (k, v)" by (cases x)
  let ?b = "BlockBuilder_AddAll i xs"
  let ?b' = "BlockBuilder_AddAll i (xs @ [x])"
  have b': "?b' = BlockBuilder_Add i ?b k v" unfolding x by (rule BlockBuilder_AddAll_snoc)
  obtain shared tl where buf: "buffer ?b' = buffer ?b @ EncodeVarint32 (of_nat shared) @ tl"
    and tl: "tl \<noteq> []"
    and sh: "\<not> counter ?b < i \<or> last_key ?b = [] \<longrightarrow> shared = 0"
    unfolding b' using BlockBuilder_Add_buffer [of i ?b k v] by blast
  have grow: "length (buffer ?b) < length (buffer ?b')"
    unfolding buf using tl by simp
  then have small: "length (buffer ?b) < 2 ^ 32" using snoc.prems by simp
  note IH = snoc.IH [OF small]
  have zero_at: "shared = 0 \<Longrightarrow> buffer ?b' ! length (buffer ?b) = 0"
    unfolding buf by (simp add: EncodeVarint32_zero nth_append)
  have old: "(xs = [] \<and> r = 0)
           \<or> (\<exists>j < length xs.
                 unat r = length (buffer (BlockBuilder_AddAll i (take j xs)))
                 \<and> unat r < length (buffer ?b)
                 \<and> buffer ?b ! unat r = 0)" if "r \<in> set (restarts ?b)" for r
    using IH that by blast
  have old': "\<exists>j < length (xs @ [x]).
                 unat r = length (buffer (BlockBuilder_AddAll i (take j (xs @ [x]))))
                 \<and> unat r < length (buffer ?b')
                 \<and> buffer ?b' ! unat r = 0" if r: "r \<in> set (restarts ?b)" for r
  proof -
    from old [OF r] show ?thesis
    proof
      assume e: "xs = [] \<and> r = 0"
      then have "last_key ?b = []" by (simp add: BlockBuilder_AddAll_Nil BlockBuilder_new_def)
      then have "shared = 0" using sh by simp
      then have "buffer ?b' ! 0 = 0" using zero_at e
        by (simp add: BlockBuilder_AddAll_Nil BlockBuilder_new_def)
      moreover have "length (buffer (BlockBuilder_AddAll i (take 0 (xs @ [x])))) = 0"
        by (simp add: BlockBuilder_AddAll_Nil BlockBuilder_new_def)
      moreover have "buffer ?b' \<noteq> []" using grow by auto
      ultimately show ?thesis using e by (intro exI [of _ 0]) simp
    next
      assume "\<exists>j < length xs.
                 unat r = length (buffer (BlockBuilder_AddAll i (take j xs)))
                 \<and> unat r < length (buffer ?b)
                 \<and> buffer ?b ! unat r = 0"
      then obtain j where j: "j < length xs"
        "unat r = length (buffer (BlockBuilder_AddAll i (take j xs)))"
        "unat r < length (buffer ?b)" "buffer ?b ! unat r = 0" by blast
      have "buffer ?b' ! unat r = 0" unfolding buf using j(3,4) by (simp add: nth_append)
      moreover have "take j (xs @ [x]) = take j xs" using j(1) by simp
      ultimately show ?thesis using j grow by (intro exI [of _ j]) simp
    qed
  qed
  show ?case
  proof (cases "counter ?b < i")
    case True
    then have rs: "restarts ?b' = restarts ?b"
      unfolding b' by (simp add: BlockBuilder_Add_restarts)
    have "sorted_wrt (<) (restarts ?b')" unfolding rs using IH by blast
    moreover have "\<exists>j < length (xs @ [x]).
                 unat r = length (buffer (BlockBuilder_AddAll i (take j (xs @ [x]))))
                 \<and> unat r < length (buffer ?b')
                 \<and> buffer ?b' ! unat r = 0" if "r \<in> set (restarts ?b')" for r
      using that old' unfolding rs by blast
    ultimately show ?thesis by blast
  next
    case False
    then have rs: "restarts ?b' = restarts ?b @ [of_nat (length (buffer ?b))]"
      unfolding b' by (simp add: BlockBuilder_Add_restarts)
    have ne: "xs \<noteq> []"
    proof
      assume "xs = []"
      then have "counter ?b = 0" by (simp add: BlockBuilder_AddAll_Nil BlockBuilder_new_def)
      then show False using False assms by simp
    qed
    have u: "unat (of_nat (length (buffer ?b)) :: 32 word) = length (buffer ?b)"
      using small by (rule unat_of_nat32)
    have lt: "r < of_nat (length (buffer ?b))" if "r \<in> set (restarts ?b)" for r
      using old [OF that] ne u by (auto simp: word_less_nat_alt)
    have s: "sorted_wrt (<) (restarts ?b')"
      unfolding rs using IH lt by (simp add: sorted_wrt_append)
    have "shared = 0" using sh False by simp
    then have new: "\<exists>j < length (xs @ [x]).
                 unat (of_nat (length (buffer ?b)) :: 32 word)
                    = length (buffer (BlockBuilder_AddAll i (take j (xs @ [x]))))
                 \<and> unat (of_nat (length (buffer ?b)) :: 32 word) < length (buffer ?b')
                 \<and> buffer ?b' ! unat (of_nat (length (buffer ?b)) :: 32 word) = 0"
      unfolding u using zero_at grow by (intro exI [of _ "length xs"]) simp
    have "\<exists>j < length (xs @ [x]).
                 unat r = length (buffer (BlockBuilder_AddAll i (take j (xs @ [x]))))
                 \<and> unat r < length (buffer ?b')
                 \<and> buffer ?b' ! unat r = 0" if "r \<in> set (restarts ?b')" for r
    proof -
      from that consider "r \<in> set (restarts ?b)" | "r = of_nat (length (buffer ?b))"
        unfolding rs by auto
      then show ?thesis
      proof cases
        case 1
        then show ?thesis by (rule old')
      next
        case 2
        show ?thesis unfolding 2 by (rule new)
      qed
    qed
    then show ?thesis using s by blast
  qed
qed


lemma fold_PutFixed32:
  "fold (\<lambda>r buf. PutFixed32 buf r) rs buf = buf @ concat (map EncodeFixed32 rs)"
  by (induction rs arbitrary: buf) (simp_all add: PutFixed32_def)

lemma BlockBuilder_Finish_buffer:
  "buffer (BlockBuilder_Finish b) =
     buffer b @ concat (map EncodeFixed32 (restarts b)) @ EncodeFixed32 (of_nat (length (restarts b)))"
  unfolding BlockBuilder_Finish_def Let_def fold_PutFixed32 by (simp add: PutFixed32_def)

lemma GetVarint32Ptr_zero_byte:
  assumes "n < length block" and "block ! n = 0"
  shows "GetVarint32Ptr (drop n block) = Some (0, drop (Suc n) block)"
proof -
  have "drop n block = 0 # drop (Suc n) block"
    using assms by (metis Cons_nth_drop_Suc)
  then show ?thesis by (simp add: GetVarint32Ptr_def)
qed

text \<open>C6: for every non-empty sequence of \<open>Add\<close> calls on a fresh builder with a
  restart interval of at least 1, whose finished block stays below \<open>2^32\<close> bytes (the
  block-size invariant of the format; restart offsets are 32-bit), the restart array of the
  finished block is strictly increasing, and every recorded offset is the offset at which
  one of the added entries starts and the \<open>shared\<close> varint decoded there is 0.  The
  finished block is the entry bytes followed by that restart array and its length.  The
  keys need not even be increasing for this.  The sequence has to be non-empty: a block
  finished with no \<open>Add\<close> still records the restart offset 0, where no entry
  starts.\<close>

theorem block_restart_invariant:
  assumes "1 \<le> block_restart_interval" and "kvs \<noteq> []"
    and "length (buffer (BlockBuilder_Finish (BlockBuilder_AddAll block_restart_interval kvs))) < 2 ^ 32"
  shows "sorted_wrt (<) (restarts (BlockBuilder_AddAll block_restart_interval kvs))
     \<and> (\<forall>r \<in> set (restarts (BlockBuilder_AddAll block_restart_interval kvs)).
           \<exists>j < length kvs.
             unat r = length (buffer (BlockBuilder_AddAll block_restart_interval (take j kvs)))
             \<and> GetVarint32Ptr
                   (drop (unat r)
                      (buffer (BlockBuilder_Finish (BlockBuilder_AddAll block_restart_interval kvs))))
                 = Some (0, drop (Suc (unat r))
                      (buffer (BlockBuilder_Finish (BlockBuilder_AddAll block_restart_interval kvs)))))
     \<and> buffer (BlockBuilder_Finish (BlockBuilder_AddAll block_restart_interval kvs))
         = buffer (BlockBuilder_AddAll block_restart_interval kvs)
           @ concat (map EncodeFixed32 (restarts (BlockBuilder_AddAll block_restart_interval kvs)))
           @ EncodeFixed32 (of_nat (length (restarts (BlockBuilder_AddAll block_restart_interval kvs))))"
proof -
  let ?b = "BlockBuilder_AddAll block_restart_interval kvs"
  let ?block = "buffer (BlockBuilder_Finish ?b)"
  have fin: "?block = buffer ?b @ concat (map EncodeFixed32 (restarts ?b))
      @ EncodeFixed32 (of_nat (length (restarts ?b)))"
    by (rule BlockBuilder_Finish_buffer)
  then have "length (buffer ?b) \<le> length ?block" by simp
  then have small: "length (buffer ?b) < 2 ^ 32" using assms(3) by simp
  note inv = restart_invariant [OF assms(1) small]
  have "\<exists>j < length kvs.
             unat r = length (buffer (BlockBuilder_AddAll block_restart_interval (take j kvs)))
             \<and> GetVarint32Ptr (drop (unat r) ?block) = Some (0, drop (Suc (unat r)) ?block)"
    if r: "r \<in> set (restarts ?b)" for r
  proof -
    from inv r assms(2) obtain j where j: "j < length kvs"
      "unat r = length (buffer (BlockBuilder_AddAll block_restart_interval (take j kvs)))"
      "unat r < length (buffer ?b)" "buffer ?b ! unat r = 0" by blast
    have "unat r < length ?block" using j(3) fin by simp
    moreover have "?block ! unat r = 0" using j(3,4) by (subst fin) (simp add: nth_append)
    ultimately have "GetVarint32Ptr (drop (unat r) ?block) = Some (0, drop (Suc (unat r)) ?block)"
      by (rule GetVarint32Ptr_zero_byte)
    then show ?thesis using j(1,2) by blast
  qed
  then show ?thesis using inv fin by blast
qed

theorem block_restart_invariant_witness:
  "(1 :: int) \<le> 2
   \<and> [([1], [10]), ([1, 2], [11]), ([2], [12 :: byte])] \<noteq> ([] :: (bytes \<times> bytes) list)
   \<and> length (buffer (BlockBuilder_Finish
         (BlockBuilder_AddAll 2 [([1], [10]), ([1, 2], [11]), ([2], [12])]))) < 2 ^ 32
   \<and> restarts (BlockBuilder_AddAll 2 [([1], [10]), ([1, 2], [11]), ([2], [12])]) = [0, 10]
   \<and> sorted_wrt (<) (restarts (BlockBuilder_AddAll 2 [([1], [10]), ([1, 2], [11]), ([2], [12])]))
   \<and> buffer (BlockBuilder_Finish (BlockBuilder_AddAll 2 [([1], [10]), ([1, 2], [11]), ([2], [12])]))
       = [0, 1, 1, 1, 10, 1, 1, 1, 2, 11, 0, 1, 1, 2, 12, 0, 0, 0, 0, 10, 0, 0, 0, 2, 0, 0, 0]"
proof -
  have e: "BlockBuilder_AddAll 2 [([1], [10]), ([1, 2], [11]), ([2], [12])]
   = \<lparr>buffer = [0, 1, 1, 1, 10, 1, 1, 1, 2, 11, 0, 1, 1, 2, 12], restarts = [0, 10], counter = 1,
       finished = False, last_key = [2]\<rparr>"
    by (simp add: BlockBuilder_AddAll_def BlockBuilder_Add_def BlockBuilder_new_def Let_def
        PutVarint32_def EncodeVarint32_def shared_loop.simps resize_def)
  have f: "buffer (BlockBuilder_Finish (BlockBuilder_AddAll 2 [([1], [10]), ([1, 2], [11]), ([2], [12])]))
       = [0, 1, 1, 1, 10, 1, 1, 1, 2, 11, 0, 1, 1, 2, 12, 0, 0, 0, 0, 10, 0, 0, 0, 2, 0, 0, 0]"
    unfolding e by (simp add: BlockBuilder_Finish_def Let_def PutFixed32_def EncodeFixed32_def)
  have l: "length (buffer (BlockBuilder_Finish
         (BlockBuilder_AddAll 2 [([1], [10]), ([1, 2], [11]), ([2], [12])]))) < 2 ^ 32"
    unfolding f by simp
  have "sorted_wrt (<) (restarts (BlockBuilder_AddAll 2 [([1], [10]), ([1, 2], [11]), ([2], [12])]))"
    using block_restart_invariant [of 2 "[([1], [10]), ([1, 2], [11]), ([2], [12])]", OF _ _ l]
    by simp
  then show ?thesis using l f by (simp add: e)
qed

text \<open>A block finished with no \<open>Add\<close> at all, as \<open>TableBuilder::Finish\<close> builds for the
  metaindex when there is no filter policy: the restart array is \<open>[0]\<close>, the entry area
  is empty, and the 8 bytes of the block are the restart array and its length.  So the
  recorded offset 0 lies at the end of the entry area, where no entry starts.\<close>

theorem block_restart_no_entry:
  "restarts (BlockBuilder_Finish (BlockBuilder_AddAll 16 [])) = [0]
   \<and> buffer (BlockBuilder_AddAll 16 []) = []
   \<and> buffer (BlockBuilder_Finish (BlockBuilder_AddAll 16 [])) = [0, 0, 0, 0, 1, 0, 0, 0]
   \<and> \<not> unat (0 :: 32 word) < length (buffer (BlockBuilder_AddAll 16 []))
   \<and> \<not> (\<exists>j < length ([] :: (bytes \<times> bytes) list).
           unat (0 :: 32 word) = length (buffer (BlockBuilder_AddAll 16 (take j []))))"
  by (simp add: BlockBuilder_AddAll_def BlockBuilder_new_def BlockBuilder_Finish_def
      PutFixed32_def EncodeFixed32_def)

section \<open>Log records: header codec\<close>

lemma crc32c_Unmask_Mask: "crc32c_Unmask (crc32c_Mask c) = c"
proof -
  have "drop_bit 17 (drop_bit 15 c OR push_bit 17 c) OR push_bit 15 (drop_bit 15 c OR push_bit 17 c) = c"
  proof (rule bit_eqI)
    fix n
    assume "possible_bit TYPE(32 word) n"
    then show "bit (drop_bit 17 (drop_bit 15 c OR push_bit 17 c)
                 OR push_bit 15 (drop_bit 15 c OR push_bit 17 c)) n = bit c n"
      by (cases "n < 15") (auto simp: bit_simps dest: bit_imp_le_length)
  qed
  then show ?thesis by (simp add: crc32c_Unmask_def crc32c_Mask_def Let_def)
qed

lemma crc32c_Extend_Value: "crc32c_Extend (crc32c_Value a) b = crc32c_Value (a @ b)"
  by (simp add: crc32c_Extend_def crc32c_Value_def)

lemma DecodeFixed32_EncodeFixed32: "DecodeFixed32 (EncodeFixed32 v @ rest) = v"
proof -
  have e: "(ucast (ucast (x AND 0xff :: 32 word) :: byte) :: 32 word) = take_bit 8 x" for x
  proof -
    have "x AND 0xff = take_bit 8 x" by (simp add: take_bit_eq_mask mask_eq_exp_minus_1)
    then show ?thesis by (simp only:) (rule bit_eqI, auto simp: bit_simps)
  qed
  have "take_bit 8 v OR push_bit 8 (take_bit 8 (drop_bit 8 v))
          OR push_bit 16 (take_bit 8 (drop_bit 16 v)) OR push_bit 24 (take_bit 8 (drop_bit 24 v)) = v"
  proof (rule bit_eqI)
    fix n
    assume "possible_bit TYPE(32 word) n"
    then show "bit (take_bit 8 v OR push_bit 8 (take_bit 8 (drop_bit 8 v))
          OR push_bit 16 (take_bit 8 (drop_bit 16 v)) OR push_bit 24 (take_bit 8 (drop_bit 24 v))) n
        = bit v n"
      by (cases "n < 8"; cases "n < 16"; cases "n < 24") (auto simp: bit_simps)
  qed
  then show ?thesis
    unfolding DecodeFixed32_def EncodeFixed32_def by (simp add: e)
qed


lemma length_EncodeFixed32 [simp]: "length (EncodeFixed32 v) = 4"
  by (simp add: EncodeFixed32_def)

lemma length_record_header [simp]: "length (record_header t frag) = 7"
  by (simp add: record_header_def Let_def)

lemma unat_byte_of_nat: "n < 256 \<Longrightarrow> unat (of_nat n :: byte) = n"
  by (simp add: unat_of_nat take_bit_nat_eq_self)

lemma type_of_byte: "t < 128 \<Longrightarrow> unat (scast (of_nat t :: byte) :: 32 word) = t"
proof -
  assume t: "t < 128"
  have nb: "\<not> bit (of_nat t :: byte) 7"
  proof -
    have "(of_nat t :: byte) < 2 ^ 7"
      using t by (simp add: word_less_nat_alt unat_byte_of_nat)
    then have "take_bit 7 (of_nat t :: byte) = of_nat t"
      by (simp add: take_bit_eq_mask less_mask_eq)
    then have "bit (of_nat t :: byte) 7 = bit (take_bit 7 (of_nat t :: byte)) 7" by simp
    then show ?thesis by (simp only: bit_take_bit_iff) simp
  qed
  have "(scast w :: 32 word) = ucast w" if "\<not> bit w 7" for w :: byte
  proof (rule bit_eqI)
    fix n
    assume "possible_bit TYPE(32 word) n"
    then show "bit (scast w :: 32 word) n = bit (ucast w :: 32 word) n"
    proof (cases "n < 7")
      case True
      then show ?thesis by (auto simp: bit_simps min_def)
    next
      case False
      have "\<not> bit w n"
      proof
        assume b: "bit w n"
        then have "n < 8" using bit_imp_le_length [OF b] by simp
        then have "n = 7" using False by simp
        then show False using b that by simp
      qed
      then show ?thesis using False that by (auto simp: bit_simps min_def)
    qed
  qed
  from this [OF nb] have "(scast (of_nat t :: byte) :: 32 word) = ucast (of_nat t :: byte)" .
  moreover have "unat (ucast (of_nat t :: byte) :: 32 word) = unat (of_nat t :: byte)"
    by (simp add: unsigned_ucast_eq take_bit_nat_eq_self unsigned_less [of "of_nat t :: byte", simplified] less_trans [OF unsigned_less [of "of_nat t :: byte", where 'a=nat, simplified]])
  ultimately show ?thesis using t by (simp add: unat_byte_of_nat)
qed

lemma ParseHeader_record:
  assumes buf: "rbuffer r = record_header t frag @ frag @ rest"
    and n: "length frag < 65536"
    and t: "t < 128" "t \<noteq> kZeroType \<or> frag \<noteq> []"
    and io: "initial_offset r = 0"
  shows "ParseHeader r res = (t, frag, r\<lparr>rbuffer := rest\<rparr>)"
proof -
  let ?n = "length frag"
  let ?m = "crc32c_Mask (crc32c_Extend (crc32c_Value [of_nat t]) frag)"
  have h: "rbuffer r = EncodeFixed32 ?m @ [of_nat (?n mod 256), of_nat (?n div 256), of_nat t] @ frag @ rest"
    unfolding buf by (simp add: record_header_def Let_def)
  have b4: "unat (rbuffer r ! 4) = ?n mod 256"
    unfolding h by (simp add: nth_append unat_byte_of_nat)
  have b5: "unat (rbuffer r ! 5) = ?n div 256"
    unfolding h using n by (simp add: nth_append unat_byte_of_nat)
  have b6: "unat (scast (rbuffer r ! 6) :: 32 word) = t"
    unfolding h using t(1) by (simp add: nth_append type_of_byte)
  have len: "?n mod 256 + 256 * (?n div 256) = ?n" by simp
  have crc: "crc32c_Value (take (1 + ?n) (drop 6 (rbuffer r))) = crc32c_Unmask (DecodeFixed32 (rbuffer r))"
  proof -
    have "take (1 + ?n) (drop 6 (rbuffer r)) = [of_nat t] @ frag" unfolding h by simp
    moreover have "DecodeFixed32 (rbuffer r) = ?m"
      unfolding h by (rule DecodeFixed32_EncodeFixed32)
    ultimately show ?thesis by (simp only: crc32c_Unmask_Mask crc32c_Extend_Value)
  qed
  have d: "drop (kHeaderSize + ?n) (rbuffer r) = rest" unfolding buf by (simp add: kHeaderSize_def)
  have tk: "take ?n (drop kHeaderSize (rbuffer r)) = frag" unfolding buf by (simp add: kHeaderSize_def)
  have fits: "\<not> kHeaderSize + ?n > length (rbuffer r)" unfolding buf by (simp add: kHeaderSize_def)
  have nz: "\<not> (t = kZeroType \<and> ?n = 0)" using t(2) by auto
  show ?thesis
    unfolding ParseHeader_def Let_def b4 b5 b6 len
    using fits nz crc d tk io by auto
qed

section \<open>Log reader: one step of the record loop\<close>

lemmas record_type_defs = kZeroType_def kFullType_def kFirstType_def kMiddleType_def kLastType_def
  kMaxRecordType_def kEof_def kBadRecord_def

lemma resyncing_update_same: "\<not> resyncing r \<Longrightarrow> r\<lparr>resyncing := False\<rparr> = r"
  by (cases r) simp

lemma ReadRecord_loop_Full:
  assumes "ReadPhysicalRecord r fragment = (kFullType, f1, r1)" and "\<not> resyncing r1"
  shows "ReadRecord_loop r in_frag scratch po fragment =
     (True, f1, [],
      (if in_frag \<and> scratch \<noteq> []
       then ReportCorruption r1 (of_nat (length scratch)) ''partial record without end(1)''
       else r1)
      \<lparr>last_record_offset :=
          end_of_buffer_offset r1 - of_nat (length (rbuffer r1)) - of_nat kHeaderSize
            - of_nat (length f1)\<rparr>)"
  by (subst ReadRecord_loop.simps)
     (simp add: assms resyncing_update_same Let_def)

lemma ReadRecord_loop_First:
  assumes "ReadPhysicalRecord r fragment = (kFirstType, f1, r1)" and "\<not> resyncing r1"
  shows "ReadRecord_loop r in_frag scratch po fragment =
     ReadRecord_loop
      (if in_frag \<and> scratch \<noteq> []
       then ReportCorruption r1 (of_nat (length scratch)) ''partial record without end(2)''
       else r1)
      True f1
      (end_of_buffer_offset r1 - of_nat (length (rbuffer r1)) - of_nat kHeaderSize
            - of_nat (length f1))
      f1"
  by (subst ReadRecord_loop.simps)
     (simp add: assms resyncing_update_same Let_def record_type_defs)

lemma ReadRecord_loop_Middle:
  assumes "ReadPhysicalRecord r fragment = (kMiddleType, f1, r1)" and "\<not> resyncing r1"
  shows "ReadRecord_loop r True scratch po fragment = ReadRecord_loop r1 True (scratch @ f1) po f1"
  by (subst ReadRecord_loop.simps)
     (simp add: assms resyncing_update_same Let_def record_type_defs)

lemma ReadRecord_loop_Last:
  assumes "ReadPhysicalRecord r fragment = (kLastType, f1, r1)" and "\<not> resyncing r1"
  shows "ReadRecord_loop r True scratch po fragment =
     (True, scratch @ f1, scratch @ f1, r1\<lparr>last_record_offset := po\<rparr>)"
  by (subst ReadRecord_loop.simps)
     (simp add: assms resyncing_update_same Let_def record_type_defs)

lemma ReadRecord_loop_Eof:
  assumes "ReadPhysicalRecord r fragment = (kEof, f1, r1)" and "\<not> resyncing r1"
  shows "ReadRecord_loop r in_frag scratch po fragment =
     (False, [], (if in_frag then [] else scratch), r1)"
  by (subst ReadRecord_loop.simps)
     (simp add: assms resyncing_update_same Let_def record_type_defs)

section \<open>Log reader: reading one physical record\<close>

lemma ReadPhysicalRecord_refill:
  assumes "length (rbuffer r) < kHeaderSize" and "\<not> eof r"
  shows "ReadPhysicalRecord r res =
     ReadPhysicalRecord
       (r\<lparr>rbuffer := take kBlockSize (rfile r), rfile := drop kBlockSize (rfile r),
          end_of_buffer_offset := end_of_buffer_offset r + of_nat (length (take kBlockSize (rfile r))),
          eof := length (take kBlockSize (rfile r)) < kBlockSize\<rparr>) res"
proof -
  define data where "data = take kBlockSize (rfile r)"
  define r1 where "r1 = r\<lparr>rbuffer := data, rfile := drop kBlockSize (rfile r),
                       end_of_buffer_offset := end_of_buffer_offset r + of_nat (length data)\<rparr>"
  have e: "(if length data < kBlockSize then r1\<lparr>eof := True\<rparr> else r1)
      = r1\<lparr>eof := length data < kBlockSize\<rparr>"
    using assms(2) by (cases r) (simp add: r1_def)
  have "ReadPhysicalRecord r res
      = ReadPhysicalRecord (if length data < kBlockSize then r1\<lparr>eof := True\<rparr> else r1) res"
    using assms by (subst ReadPhysicalRecord.simps) (simp add: Let_def data_def r1_def)
  then show ?thesis unfolding e by (simp add: r1_def data_def)
qed

lemma ReadPhysicalRecord_parse:
  "kHeaderSize \<le> length (rbuffer r) \<Longrightarrow> ReadPhysicalRecord r res = ParseHeader r res"
  by (subst ReadPhysicalRecord.simps) simp

lemma ReadPhysicalRecord_at_end:
  "length (rbuffer r) < kHeaderSize \<Longrightarrow> eof r \<Longrightarrow>
   ReadPhysicalRecord r res = (kEof, res, r\<lparr>rbuffer := []\<rparr>)"
  by (subst ReadPhysicalRecord.simps) simp

lemma ParseHeader_resyncing: "ParseHeader r res = (t, f, r') \<Longrightarrow> resyncing r' = resyncing r"
  by (auto simp: ParseHeader_def Let_def ReportCorruption_def ReportDrop_def
      split: if_splits option.splits)

lemma ReadPhysicalRecord_resyncing:
  "ReadPhysicalRecord r res = (t, f, r') \<Longrightarrow> resyncing r' = resyncing r"
proof (induction r res rule: ReadPhysicalRecord.induct)
  case (1 r result)
  show ?case
  proof (cases "length (rbuffer r) < kHeaderSize")
    case True
    note short = True
    show ?thesis
    proof (cases "eof r")
      case True
      then show ?thesis using 1(2) short by (auto simp: ReadPhysicalRecord_at_end)
    next
      case False
      define data where "data = take kBlockSize (rfile r)"
      define r1 where "r1 = r\<lparr>rbuffer := data, rfile := drop kBlockSize (rfile r),
                       end_of_buffer_offset := end_of_buffer_offset r + of_nat (length data)\<rparr>"
      define r2 where "r2 = (if length data < kBlockSize then r1\<lparr>eof := True\<rparr> else r1)"
      have rec: "ReadPhysicalRecord r result = ReadPhysicalRecord r2 result"
        using short False
        by (subst ReadPhysicalRecord.simps) (simp add: Let_def data_def r1_def r2_def)
      have "resyncing r' = resyncing r2"
        using 1(1) [OF short False data_def r1_def r2_def] 1(2) rec by simp
      then show ?thesis by (simp add: r2_def r1_def)
    qed
  next
    case False
    then have "ParseHeader r result = (t, f, r')"
      using 1(2) by (simp add: ReadPhysicalRecord_parse)
    then show ?thesis by (rule ParseHeader_resyncing)
  qed
qed

lemma reporter_ReportCorruption:
  "reporter (ReportCorruption r n msg) =
     (if initial_offset r \<le> end_of_buffer_offset r - of_nat (length (rbuffer r)) - n
      then map_option (\<lambda>calls. calls @ [(unat n, Corruption msg)]) (reporter r)
      else reporter r)"
  by (simp add: ReportCorruption_def ReportDrop_def split: option.splits)

section \<open>The empty record\<close>

lemma AddRecord_empty: "AddRecord w [] = EmitPhysicalRecord (switch_block w) kFullType []"
  unfolding AddRecord_def
  by (subst AddRecord_loop.simps) (simp add: Let_def fragment_type_def)

lemma switch_block_new: "switch_block Writer_new = Writer_new"
  by (simp add: switch_block_def Writer_new_def kBlockSize_def kHeaderSize_def Let_def)

lemma dest_empty: "dest (AddRecord Writer_new []) = record_header kFullType []"
  unfolding AddRecord_empty switch_block_new by (simp add: EmitPhysicalRecord_def Writer_new_def)

lemma read_empty_1:
  "ReadPhysicalRecord (Reader_new (record_header kFullType []) rep cs 0) res
   = (kFullType, [], \<lparr>rfile = [], reporter = rep, checksum = cs, rbuffer = [], eof = True,
        last_record_offset = 0, end_of_buffer_offset = 7, initial_offset = 0, resyncing = False\<rparr>)"
  apply (subst ReadPhysicalRecord.simps)
  apply (simp add: Reader_new_def kHeaderSize_def kBlockSize_def Let_def)
  apply (subst ReadPhysicalRecord.simps)
  apply (simp add: kHeaderSize_def)
  apply (subst ParseHeader_record [where t = kFullType and frag = "[]" and rest = "[]"])
  apply (simp_all add: kFullType_def kZeroType_def)
  done

lemma read_empty_2:
  "ReadPhysicalRecord \<lparr>rfile = [], reporter = rep, checksum = cs, rbuffer = [], eof = True,
        last_record_offset = 0, end_of_buffer_offset = 7, initial_offset = 0, resyncing = False\<rparr> res
   = (kEof, res, \<lparr>rfile = [], reporter = rep, checksum = cs, rbuffer = [], eof = True,
        last_record_offset = 0, end_of_buffer_offset = 7, initial_offset = 0, resyncing = False\<rparr>)"
  by (subst ReadPhysicalRecord.simps) (simp add: kHeaderSize_def)

text \<open>C9: \<open>AddRecord\<close> with an empty payload emits, after the usual block switch,
  exactly one physical record, of type Full and with no payload; on a fresh writer the file
  is then the 7 header bytes, with length field 0 and type byte 1.  \<open>ReadRecord\<close> over
  that file returns one record, the empty one, reports nothing, and the next call returns
  \<open>false\<close> (end of input).\<close>

theorem empty_payload_record:
  "AddRecord w [] = EmitPhysicalRecord (switch_block w) kFullType []
   \<and> dest (AddRecord Writer_new []) = record_header kFullType []
   \<and> length (dest (AddRecord Writer_new [])) = 7
   \<and> drop 4 (dest (AddRecord Writer_new [])) = [0, 0, 1]
   \<and> (case ReadRecord (Reader_new (dest (AddRecord Writer_new [])) rep cs 0) of
         (ok1, record1, scratch1, r1) \<Rightarrow>
           ok1 \<and> record1 = [] \<and> reporter r1 = rep \<and> last_record_offset r1 = 0
           \<and> fst (ReadRecord r1) = False)"
proof -
  let ?r1 = "\<lparr>rfile = [], reporter = rep, checksum = cs, rbuffer = [], eof = True,
        last_record_offset = 0, end_of_buffer_offset = 7, initial_offset = 0, resyncing = False\<rparr>"
  have d4: "drop 4 (record_header kFullType []) = [0, 0, 1]"
    by (simp add: record_header_def Let_def kFullType_def)
  have "ReadRecord_loop (Reader_new (record_header kFullType []) rep cs 0) False [] 0 []
      = (True, [], [], ?r1)"
    by (subst ReadRecord_loop_Full [OF read_empty_1]) (simp_all add: kHeaderSize_def)
  then have r1: "ReadRecord (Reader_new (record_header kFullType []) rep cs 0) = (True, [], [], ?r1)"
    by (simp add: ReadRecord_def Reader_new_def)
  have "ReadRecord_loop ?r1 False [] 0 [] = (False, [], [], ?r1)"
    by (subst ReadRecord_loop_Eof [OF read_empty_2]) simp_all
  then have r2: "fst (ReadRecord ?r1) = False"
    by (simp add: ReadRecord_def)
  show ?thesis
    unfolding dest_empty using AddRecord_empty [of w] d4 r2 by (simp add: r1)
qed

section \<open>Log reader: a new record while a fragmented one is open\<close>

text \<open>C5 (as amended): when the record loop of \<open>ReadRecord\<close> is in the fragmented
  state (\<open>in_fragmented_record\<close> is true, which implies the reader is not resyncing) and
  the next physical record has type Full or First, the reader reports "partial record
  without end" only if the accumulated scratch is non-empty; the report carries the
  scratch size and reaches the sink only if a reporter is installed and the dropped bytes
  lie at or after \<open>initial_offset\<close>.  In every case it then returns the Full record, or
  starts the new record with the First fragment.\<close>

theorem fragmented_then_full_or_first:
  assumes "\<not> resyncing r"
    and "ReadPhysicalRecord r fragment = (t, f1, r1)"
    and "t = kFullType \<or> t = kFirstType"
  shows "ReadRecord_loop r True scratch po fragment =
     (let msg = (if t = kFullType then ''partial record without end(1)''
                 else ''partial record without end(2)'');
          r3 = (if scratch \<noteq> [] then ReportCorruption r1 (of_nat (length scratch)) msg else r1);
          physical_record_offset =
            end_of_buffer_offset r1 - of_nat (length (rbuffer r1)) - of_nat kHeaderSize
              - of_nat (length f1)
      in if t = kFullType
         then (True, f1, [], r3\<lparr>last_record_offset := physical_record_offset\<rparr>)
         else ReadRecord_loop r3 True f1 physical_record_offset f1)
   \<and> reporter
        (if scratch \<noteq> []
         then ReportCorruption r1 (of_nat (length scratch))
                (if t = kFullType then ''partial record without end(1)''
                 else ''partial record without end(2)'')
         else r1)
      = (if scratch \<noteq> []
            \<and> initial_offset r1
                \<le> end_of_buffer_offset r1 - of_nat (length (rbuffer r1)) - of_nat (length scratch)
         then map_option
                (\<lambda>calls. calls @
                   [(unat (of_nat (length scratch) :: 64 word),
                     Corruption (if t = kFullType then ''partial record without end(1)''
                                 else ''partial record without end(2)''))])
                (reporter r1)
         else reporter r1)"
proof -
  have nr: "\<not> resyncing r1"
    using ReadPhysicalRecord_resyncing [OF assms(2)] assms(1) by simp
  have loop: "ReadRecord_loop r True scratch po fragment =
     (let msg = (if t = kFullType then ''partial record without end(1)''
                 else ''partial record without end(2)'');
          r3 = (if scratch \<noteq> [] then ReportCorruption r1 (of_nat (length scratch)) msg else r1);
          physical_record_offset =
            end_of_buffer_offset r1 - of_nat (length (rbuffer r1)) - of_nat kHeaderSize
              - of_nat (length f1)
      in if t = kFullType
         then (True, f1, [], r3\<lparr>last_record_offset := physical_record_offset\<rparr>)
         else ReadRecord_loop r3 True f1 physical_record_offset f1)"
  proof (cases "t = kFullType")
    case True
    show ?thesis
      using ReadRecord_loop_Full [OF assms(2) [unfolded True] nr, of True scratch po] True
      by (simp add: Let_def)
  next
    case False
    then have t: "t = kFirstType" using assms(3) by simp
    show ?thesis
      using ReadRecord_loop_First [OF assms(2) [unfolded t] nr, of True scratch po] False
      by (simp add: Let_def)
  qed
  show ?thesis
    using loop by (simp add: reporter_ReportCorruption)
qed


theorem fragmented_then_full_or_first_witness:
  "\<not> resyncing \<lparr>rfile = [], reporter = Some [], checksum = True,
        rbuffer = record_header kFullType [99] @ [99], eof = True, last_record_offset = 0,
        end_of_buffer_offset = 17, initial_offset = 0, resyncing = False\<rparr>
   \<and> ReadPhysicalRecord \<lparr>rfile = [], reporter = Some [], checksum = True,
        rbuffer = record_header kFullType [99] @ [99], eof = True, last_record_offset = 0,
        end_of_buffer_offset = 17, initial_offset = 0, resyncing = False\<rparr> [97, 98]
       = (kFullType, [99], \<lparr>rfile = [], reporter = Some [], checksum = True,
        rbuffer = [], eof = True, last_record_offset = 0,
        end_of_buffer_offset = 17, initial_offset = 0, resyncing = False\<rparr>)
   \<and> ReadRecord_loop \<lparr>rfile = [], reporter = Some [], checksum = True,
        rbuffer = record_header kFullType [99] @ [99], eof = True, last_record_offset = 0,
        end_of_buffer_offset = 17, initial_offset = 0, resyncing = False\<rparr> True [97, 98] 0 [97, 98]
       = (True, [99], [], \<lparr>rfile = [],
            reporter = Some [(2, Corruption ''partial record without end(1)'')], checksum = True,
            rbuffer = [], eof = True, last_record_offset = 9,
            end_of_buffer_offset = 17, initial_offset = 0, resyncing = False\<rparr>)"
proof -
  let ?r = "\<lparr>rfile = [], reporter = Some [], checksum = True,
        rbuffer = record_header kFullType [99] @ [99], eof = True, last_record_offset = 0,
        end_of_buffer_offset = 17, initial_offset = 0, resyncing = False\<rparr>"
  let ?r1 = "\<lparr>rfile = [], reporter = Some [], checksum = True,
        rbuffer = [], eof = True, last_record_offset = 0,
        end_of_buffer_offset = 17, initial_offset = 0, resyncing = False\<rparr>"
  have p: "ReadPhysicalRecord ?r [97, 98] = (kFullType, [99], ?r1)"
    apply (subst ReadPhysicalRecord_parse)
     apply (simp add: kHeaderSize_def)
    apply (subst ParseHeader_record [where t = kFullType and frag = "[99]" and rest = "[]"])
        apply (simp_all add: kFullType_def kZeroType_def)
    done
  have n: "\<not> resyncing ?r" by simp
  show ?thesis
    using fragmented_then_full_or_first [OF n p, of "[97, 98]" 0] p
    by (simp add: Let_def ReportCorruption_def ReportDrop_def kHeaderSize_def)
qed

text \<open>C5 as stated fails: a First fragment with an empty payload followed by a Full
  record.  After the First fragment the loop is in the fragmented state with an empty
  scratch; the Full record is returned and nothing is reported.\<close>

theorem fragmented_empty_scratch_no_report:
  "ReadPhysicalRecord
      (Reader_new (record_header kFirstType [] @ record_header kFullType [97] @ [97]) (Some []) True 0) []
     = (kFirstType, [], \<lparr>rfile = [], reporter = Some [], checksum = True,
        rbuffer = record_header kFullType [97] @ [97], eof = True, last_record_offset = 0,
        end_of_buffer_offset = 15, initial_offset = 0, resyncing = False\<rparr>)
   \<and> ReadPhysicalRecord \<lparr>rfile = [], reporter = Some [], checksum = True,
        rbuffer = record_header kFullType [97] @ [97], eof = True, last_record_offset = 0,
        end_of_buffer_offset = 15, initial_offset = 0, resyncing = False\<rparr> []
     = (kFullType, [97], \<lparr>rfile = [], reporter = Some [], checksum = True,
        rbuffer = [], eof = True, last_record_offset = 0,
        end_of_buffer_offset = 15, initial_offset = 0, resyncing = False\<rparr>)
   \<and> ReadRecord_loop \<lparr>rfile = [], reporter = Some [], checksum = True,
        rbuffer = record_header kFullType [97] @ [97], eof = True, last_record_offset = 0,
        end_of_buffer_offset = 15, initial_offset = 0, resyncing = False\<rparr> True [] 0 []
     = (True, [97], [], \<lparr>rfile = [], reporter = Some [], checksum = True,
        rbuffer = [], eof = True, last_record_offset = 7,
        end_of_buffer_offset = 15, initial_offset = 0, resyncing = False\<rparr>)
   \<and> ReadRecord
      (Reader_new (record_header kFirstType [] @ record_header kFullType [97] @ [97]) (Some []) True 0)
     = (True, [97], [], \<lparr>rfile = [], reporter = Some [], checksum = True,
        rbuffer = [], eof = True, last_record_offset = 7,
        end_of_buffer_offset = 15, initial_offset = 0, resyncing = False\<rparr>)"
proof -
  let ?F = "record_header kFirstType [] @ record_header kFullType [97] @ [97]"
  let ?rA = "\<lparr>rfile = [], reporter = Some [], checksum = True,
        rbuffer = record_header kFullType [97] @ [97], eof = True, last_record_offset = 0,
        end_of_buffer_offset = 15, initial_offset = 0, resyncing = False\<rparr>"
  let ?rB = "\<lparr>rfile = [], reporter = Some [], checksum = True,
        rbuffer = [], eof = True, last_record_offset = 0,
        end_of_buffer_offset = 15, initial_offset = 0, resyncing = False\<rparr>"
  have p1: "ReadPhysicalRecord (Reader_new ?F (Some []) True 0) [] = (kFirstType, [], ?rA)"
    apply (subst ReadPhysicalRecord_refill)
      apply (simp_all add: Reader_new_def kHeaderSize_def)
    apply (subst ReadPhysicalRecord_parse)
     apply (simp add: kHeaderSize_def kBlockSize_def)
    apply (subst ParseHeader_record [where t = kFirstType and frag = "[]"
          and rest = "record_header kFullType [97] @ [97]"])
        apply (simp_all add: kFirstType_def kZeroType_def kBlockSize_def)
    done
  have p2: "ReadPhysicalRecord ?rA [] = (kFullType, [97], ?rB)"
    apply (subst ReadPhysicalRecord_parse)
     apply (simp add: kHeaderSize_def)
    apply (subst ParseHeader_record [where t = kFullType and frag = "[97]" and rest = "[]"])
        apply (simp_all add: kFullType_def kZeroType_def)
    done
  have l2: "ReadRecord_loop ?rA True [] 0 [] = (True, [97], [], ?rB\<lparr>last_record_offset := 7\<rparr>)"
    by (subst ReadRecord_loop_Full [OF p2]) (simp_all add: kHeaderSize_def)
  have l1: "ReadRecord_loop (Reader_new ?F (Some []) True 0) False [] 0 []
      = ReadRecord_loop ?rA True [] 0 []"
    by (subst ReadRecord_loop_First [OF p1]) (simp_all add: kHeaderSize_def)
  have rr: "ReadRecord (Reader_new ?F (Some []) True 0) = (True, [97], [], ?rB\<lparr>last_record_offset := 7\<rparr>)"
    using l1 l2 by (simp add: ReadRecord_def Reader_new_def)
  show ?thesis using p1 p2 l2 rr by simp
qed

section \<open>Log round trip\<close>

lemma reader_at_new: "reader_at F 0 (Reader_new F rep cs 0)"
  unfolding reader_at_def reader_at_block_def
  by (rule exI [of _ 0]) (simp add: Reader_new_def)

lemma reader_at_block_refill:
  assumes "reader_at_block F k p r" and "length (rbuffer r) < kHeaderSize" and "\<not> eof r"
  shows "reader_at_block F (k + 1) (k * kBlockSize)
       (r\<lparr>rbuffer := take kBlockSize (rfile r), rfile := drop kBlockSize (rfile r),
          end_of_buffer_offset := end_of_buffer_offset r + of_nat (length (take kBlockSize (rfile r))),
          eof := length (take kBlockSize (rfile r)) < kBlockSize\<rparr>)"
proof -
  let ?K = "k * kBlockSize"
  let ?E = "min ((k + 1) * kBlockSize) (length F)"
  have len: "?K \<le> length F" using assms(1,3) by (simp add: reader_at_block_def)
  then have e: "min ?K (length F) = ?K" by simp
  have f: "rfile r = drop ?K F" using assms(1) e by (simp add: reader_at_block_def)
  have eo: "end_of_buffer_offset r = of_nat ?K"
    using assms(1) e by (simp add: reader_at_block_def)
  have k1: "(k + 1) * kBlockSize = ?K + kBlockSize" by simp
  have lt: "length (take kBlockSize (drop ?K F)) = ?E - ?K"
    unfolding k1 using len by (simp only: length_take length_drop | arith)+
  have c1: "?K \<le> ?E" unfolding k1 using len by arith
  have c2: "k + 1 = 0 \<or> (k + 1 - 1) * kBlockSize \<le> ?K" by simp
  have c3: "take kBlockSize (drop ?K F) = take (?E - ?K) (drop ?K F)"
  proof (cases "?K + kBlockSize \<le> length F")
    case True
    then have "?E - ?K = kBlockSize" unfolding k1 by arith
    then show ?thesis by simp
  next
    case False
    then have "?E - ?K = length (drop ?K F)" unfolding k1 using len by (simp only: length_drop | arith)+
    moreover have "length (drop ?K F) \<le> kBlockSize" using False by (simp only: length_drop | arith)+
    ultimately show ?thesis by simp
  qed
  have c4: "drop kBlockSize (drop ?K F) = drop ?E F"
    by (cases "(k + 1) * kBlockSize \<le> length F") (simp_all add: add.commute)
  have c5: "(length (take kBlockSize (drop ?K F)) < kBlockSize) = (length F < (k + 1) * kBlockSize)"
    unfolding lt unfolding k1 using len by arith
  have c6: "(of_nat ?K :: 64 word) + of_nat (length (take kBlockSize (drop ?K F))) = of_nat ?E"
    unfolding lt using c1 by (simp only: of_nat_add [symmetric] le_add_diff_inverse)
  have io: "initial_offset r = 0" "\<not> resyncing r" using assms(1) by (simp_all add: reader_at_block_def)
  show ?thesis
    unfolding reader_at_block_def f eo
    using c1 c2 c3 c4 c5 c6 io by simp
qed


lemma reader_at_block_parse:
  assumes at: "reader_at_block F k p r"
    and inb: "p + 7 + length frag \<le> min (k * kBlockSize) (length F)"
    and rec: "take (7 + length frag) (drop p F) = record_header t frag @ frag"
    and n: "length frag < 65536"
    and t: "t < 128" "t \<noteq> kZeroType \<or> frag \<noteq> []"
  shows "\<exists>r'. ReadPhysicalRecord r res = (t, frag, r')
           \<and> reader_at_block F k (p + 7 + length frag) r'
           \<and> reporter r' = reporter r \<and> checksum r' = checksum r"
proof -
  let ?E = "min (k * kBlockSize) (length F)"
  let ?n = "length frag"
  let ?rest = "take (?E - (p + 7 + ?n)) (drop (p + 7 + ?n) F)"
  have b: "rbuffer r = take (?E - p) (drop p F)" using at by (simp add: reader_at_block_def)
  have split: "?E - p = (7 + ?n) + (?E - (p + 7 + ?n))" using inb by arith
  have dd: "drop (7 + ?n) (drop p F) = drop (p + 7 + ?n) F"
    by (simp add: ac_simps)
  have "take ((7 + ?n) + (?E - (p + 7 + ?n))) (drop p F)
      = take (7 + ?n) (drop p F) @ take (?E - (p + 7 + ?n)) (drop (7 + ?n) (drop p F))"
    by (rule take_add)
  then have buf: "rbuffer r = record_header t frag @ frag @ ?rest"
    unfolding b split rec dd by simp
  have io: "initial_offset r = 0" using at by (simp add: reader_at_block_def)
  have ph: "ParseHeader r res = (t, frag, r\<lparr>rbuffer := ?rest\<rparr>)"
    using buf n t io by (rule ParseHeader_record)
  have "kHeaderSize \<le> length (rbuffer r)" unfolding buf by (simp add: kHeaderSize_def)
  then have rp: "ReadPhysicalRecord r res = (t, frag, r\<lparr>rbuffer := ?rest\<rparr>)"
    using ph by (simp add: ReadPhysicalRecord_parse)
  have "reader_at_block F k (p + 7 + ?n) (r\<lparr>rbuffer := ?rest\<rparr>)"
    using at inb unfolding reader_at_block_def by auto
  then show ?thesis using rp by auto
qed

lemma mod_zero_multiple: "(p :: nat) mod b = 0 \<Longrightarrow> \<exists>j. p = j * b"
  using div_mult_mod_eq [of p b] by (intro exI [of _ "p div b"]) simp

lemma block_mod:
  assumes "j * b \<le> (p :: nat)" and "p < j * b + b"
  shows "p mod b = p - j * b"
proof -
  have "p = (p - j * b) + j * b" using assms(1) by simp
  then have "p mod b = (p - j * b) mod b" by (metis mod_mult_self1 mult.commute)
  also have "\<dots> = p - j * b" using assms by simp
  finally show ?thesis .
qed

lemma mult_block_less: "a * b \<le> p \<Longrightarrow> p < j * b \<Longrightarrow> a < (j :: nat)"
  by (metis le_less_trans mult_less_cancel2)

lemma reader_at_physical:
  assumes at: "reader_at F p r"
    and p1: "p1 = p \<or> (p1 mod kBlockSize = 0 \<and> p < p1 \<and> p1 < p + 7)"
    and rec: "take (7 + length frag) (drop p1 F) = record_header t frag @ frag"
    and fit: "p1 mod kBlockSize + 7 + length frag \<le> kBlockSize"
    and t: "t < 128" "t \<noteq> kZeroType \<or> frag \<noteq> []"
  shows "\<exists>r'. ReadPhysicalRecord r res = (t, frag, r')
           \<and> reader_at F (p1 + 7 + length frag) r'
           \<and> reporter r' = reporter r \<and> checksum r' = checksum r"
proof -
  let ?n = "length frag"
  obtain k where k: "reader_at_block F k p r" using at unfolding reader_at_def by blast
  let ?E = "min (k * kBlockSize) (length F)"
  have inF: "p1 + 7 + ?n \<le> length F"
  proof -
    have "length (take (7 + ?n) (drop p1 F)) = 7 + ?n" unfolding rec by simp
    then show ?thesis by (simp only: length_take length_drop | arith)+
  qed
  have n: "?n < 65536" using fit by (simp add: kBlockSize_def)
  have pE: "p \<le> ?E" and kp: "k = 0 \<or> (k - 1) * kBlockSize \<le> p"
    and b: "length (rbuffer r) = ?E - p" and eo: "eof r \<longleftrightarrow> length F < k * kBlockSize"
    using k unfolding reader_at_block_def by auto
  show ?thesis
  proof (cases "length (rbuffer r) < kHeaderSize")
    case False
    then have big: "p + 7 \<le> ?E" using b unfolding kHeaderSize_def by arith
    have kpos: "k \<noteq> 0"
    proof
      assume "k = 0"
      then show False using big by simp
    qed
    then have k1: "k * kBlockSize = (k - 1) * kBlockSize + kBlockSize"
      by (cases k) simp_all
    have lo: "(k - 1) * kBlockSize \<le> p" using kp kpos by simp
    have hi: "p < (k - 1) * kBlockSize + kBlockSize" using big k1 by arith
    have pm: "p mod kBlockSize = p - (k - 1) * kBlockSize"
      using lo hi by (rule block_mod)
    have same: "p1 = p"
    proof (rule ccontr)
      assume "p1 \<noteq> p"
      then have q: "p1 mod kBlockSize = 0" "p < p1" "p1 < p + 7" using p1 by auto
      obtain j where j: "p1 = j * kBlockSize" using mod_zero_multiple [OF q(1)] by blast
      have "k - 1 < j" using lo q(2) unfolding j by (rule mult_block_less)
      then have "k \<le> j" by simp
      then have "k * kBlockSize \<le> p1" unfolding j by simp
      then show False using big q(3) by arith
    qed
    have "p + 7 + ?n \<le> k * kBlockSize"
      using fit pm lo unfolding same k1 by arith
    then have inb: "p + 7 + ?n \<le> ?E" using inF same by simp
    show ?thesis
      using reader_at_block_parse [OF k inb rec [unfolded same] n t, of res]
      unfolding same reader_at_def by blast
  next
    case True
    then have small: "?E < p + 7" using b unfolding kHeaderSize_def by arith
    have "p + 7 \<le> length F" using inF p1 by arith
    then have eK: "?E = k * kBlockSize" and lt: "k * kBlockSize < length F"
      using small by arith+
    then have neof: "\<not> eof r" using eo by simp
    have p1K: "p1 = k * kBlockSize"
    proof (cases "p1 = p")
      case True
      note same = True
      show ?thesis
      proof (rule ccontr)
        assume ne: "p1 \<noteq> k * kBlockSize"
        then have plt: "p < k * kBlockSize" using pE eK same by simp
        have kpos: "k \<noteq> 0"
        proof
          assume "k = 0"
          then show False using plt by simp
        qed
        then have k1: "k * kBlockSize = (k - 1) * kBlockSize + kBlockSize"
          by (cases k) simp_all
        have lo: "(k - 1) * kBlockSize \<le> p" using kp kpos by simp
        have "p < (k - 1) * kBlockSize + kBlockSize" using plt k1 by simp
        with lo have pm: "p mod kBlockSize = p - (k - 1) * kBlockSize" by (rule block_mod)
        show False using fit pm lo small eK k1 unfolding same by arith
      qed
    next
      case False
      then have q: "p1 mod kBlockSize = 0" "p < p1" "p1 < p + 7" using p1 by auto
      obtain j where j: "p1 = j * kBlockSize" using mod_zero_multiple [OF q(1)] by blast
      have jk: "k \<le> j"
      proof (cases "k = 0")
        case True then show ?thesis by simp
      next
        case False
        then have "(k - 1) * kBlockSize \<le> p" using kp by simp
        then have "k - 1 < j" using q(2) unfolding j by (rule mult_block_less)
        then show ?thesis by simp
      qed
      have "7 \<le> kBlockSize" by (simp add: kBlockSize_def)
      then have "j * kBlockSize < k * kBlockSize + kBlockSize"
        using q(3) pE eK unfolding j by arith
      then have "j * kBlockSize < (k + 1) * kBlockSize" by simp
      then have "j < k + 1" by (simp only: mult_less_cancel2)
      then show ?thesis using jk j by simp
    qed
    let ?r2 = "r\<lparr>rbuffer := take kBlockSize (rfile r), rfile := drop kBlockSize (rfile r),
          end_of_buffer_offset := end_of_buffer_offset r + of_nat (length (take kBlockSize (rfile r))),
          eof := length (take kBlockSize (rfile r)) < kBlockSize\<rparr>"
    have at2: "reader_at_block F (k + 1) p1 ?r2"
      unfolding p1K using k True neof by (rule reader_at_block_refill)
    have rp: "ReadPhysicalRecord r res = ReadPhysicalRecord ?r2 res"
      using True neof by (rule ReadPhysicalRecord_refill)
    have "p1 mod kBlockSize = 0" unfolding p1K by simp
    then have "7 + ?n \<le> kBlockSize" using fit by simp
    then have "p1 + 7 + ?n \<le> (k + 1) * kBlockSize" unfolding p1K by simp
    then have inb: "p1 + 7 + ?n \<le> min ((k + 1) * kBlockSize) (length F)" using inF by simp
    obtain r' where "ReadPhysicalRecord ?r2 res = (t, frag, r')"
      "reader_at_block F (k + 1) (p1 + 7 + ?n) r'" "reporter r' = reporter ?r2"
      "checksum r' = checksum ?r2"
      using reader_at_block_parse [OF at2 inb rec n t, of res] by blast
    then show ?thesis unfolding rp reader_at_def by auto
  qed
qed


lemma AddRecord_loop_step:
  "AddRecord_loop w ptr bg =
     (if fragment_length w ptr < length ptr
      then AddRecord_loop
             (EmitPhysicalRecord (switch_block w) (fragment_type bg False)
                (take (fragment_length w ptr) ptr))
             (drop (fragment_length w ptr) ptr) False
      else EmitPhysicalRecord (switch_block w) (fragment_type bg True) ptr)"
proof -
  have le: "fragment_length w ptr \<le> length ptr"
    by (simp add: fragment_length_def Let_def)
  show ?thesis
  proof (cases "fragment_length w ptr < length ptr")
    case True
    then show ?thesis
      by (subst AddRecord_loop.simps) (simp add: fragment_length_def Let_def)
  next
    case False
    then have e: "fragment_length w ptr = length ptr" using le by simp
    show ?thesis
      using e by (subst AddRecord_loop.simps) (simp add: fragment_length_def Let_def)
  qed
qed

lemma AddRecord_loop_induct [consumes 0, case_names step]:
  assumes "\<And>w ptr bg.
      (fragment_length w ptr < length ptr \<Longrightarrow>
         P (EmitPhysicalRecord (switch_block w) (fragment_type bg False)
                (take (fragment_length w ptr) ptr))
           (drop (fragment_length w ptr) ptr) False) \<Longrightarrow> P w ptr bg"
  shows "P w ptr bg"
proof (induction w ptr bg rule: AddRecord_loop.induct)
  case (1 w ptr bg)
  show ?case
  proof (rule assms)
    assume lt: "fragment_length w ptr < length ptr"
    then have "0 < length ptr - fragment_length w ptr" by simp
    then show "P (EmitPhysicalRecord (switch_block w) (fragment_type bg False)
                (take (fragment_length w ptr) ptr))
           (drop (fragment_length w ptr) ptr) False"
      using 1 [OF refl refl refl refl refl refl] lt
      by (simp add: fragment_length_def Let_def)
  qed
qed

lemma switch_block_cases:
  assumes "Writer_ok w"
  obtains (stay) "block_offset w \<le> int kBlockSize - 7" "switch_block w = w"
    | (pad) "int kBlockSize - 7 < block_offset w" "block_offset w < int kBlockSize"
        "switch_block w = w\<lparr>dest := dest w @ replicate (nat (int kBlockSize - block_offset w)) 0,
            block_offset := 0\<rparr>"
    | (full) "block_offset w = int kBlockSize" "switch_block w = w\<lparr>block_offset := 0\<rparr>"
proof -
  have z: "take n [0, 0, 0, 0, 0, 0 :: byte] = replicate n 0" if "n \<le> 6" for n
  proof -
    have "[0, 0, 0, 0, 0, 0 :: byte] = replicate 6 0" by (simp add: numeral_eq_Suc)
    then show ?thesis using that by (simp add: min_def)
  qed
  have b: "block_offset w \<le> int kBlockSize" using assms by (simp add: Writer_ok_def)
  consider "block_offset w \<le> int kBlockSize - 7"
    | "int kBlockSize - 7 < block_offset w" "block_offset w < int kBlockSize"
    | "block_offset w = int kBlockSize"
    using b by linarith
  then show ?thesis
  proof cases
    case 1
    then have "switch_block w = w"
      by (simp add: switch_block_def Let_def kHeaderSize_def)
    with 1 show ?thesis by (rule stay)
  next
    case 2
    then have "nat (int kBlockSize - block_offset w) \<le> 6" by simp
    then have "switch_block w = w\<lparr>dest := dest w @ replicate (nat (int kBlockSize - block_offset w)) 0,
            block_offset := 0\<rparr>"
      using 2 by (simp add: switch_block_def Let_def kHeaderSize_def z)
    with 2 show ?thesis by (rule pad)
  next
    case 3
    then have "switch_block w = w\<lparr>block_offset := 0\<rparr>"
      by (simp add: switch_block_def Let_def kHeaderSize_def)
    with 3 show ?thesis by (rule full)
  qed
qed

lemma switch_block_ok:
  assumes "Writer_ok w"
  shows "Writer_ok (switch_block w)"
    and "block_offset (switch_block w) \<le> int kBlockSize - int kHeaderSize"
    and "0 \<le> block_offset (switch_block w)"
    and "length (dest (switch_block w)) = length (dest w)
         \<or> (length (dest (switch_block w)) mod kBlockSize = 0
             \<and> length (dest w) < length (dest (switch_block w))
             \<and> length (dest (switch_block w)) < length (dest w) + 7)"
    and "\<exists>pad. dest (switch_block w) = dest w @ pad"
    and "int (length (dest (switch_block w)) mod kBlockSize) = block_offset (switch_block w)"
proof -
  have ok: "0 \<le> block_offset w" "block_offset w \<le> int kBlockSize"
    "int (length (dest w)) mod int kBlockSize = block_offset w mod int kBlockSize"
    using assms by (simp_all add: Writer_ok_def)
  have all: "Writer_ok (switch_block w)
    \<and> block_offset (switch_block w) \<le> int kBlockSize - int kHeaderSize
    \<and> 0 \<le> block_offset (switch_block w)
    \<and> (length (dest (switch_block w)) = length (dest w)
         \<or> (length (dest (switch_block w)) mod kBlockSize = 0
             \<and> length (dest w) < length (dest (switch_block w))
             \<and> length (dest (switch_block w)) < length (dest w) + 7))
    \<and> (\<exists>pad. dest (switch_block w) = dest w @ pad)
    \<and> int (length (dest (switch_block w)) mod kBlockSize) = block_offset (switch_block w)"
    using assms
  proof (cases rule: switch_block_cases)
    case stay
    have "block_offset w mod int kBlockSize = block_offset w"
      using ok(1) stay(1) by (simp add: kBlockSize_def)
    then show ?thesis
      using assms ok stay by (simp add: kHeaderSize_def zmod_int)
  next
    case pad
    define m where "m = nat (int kBlockSize - block_offset w)"
    have m: "int m = int kBlockSize - block_offset w" "0 < m" "m < 7"
      using pad(1,2) by (simp_all add: m_def)
    have bm: "block_offset w mod int kBlockSize = block_offset w"
      using ok(1) pad(2) by simp
    have zi: "(int (length (dest w)) + int m) mod int kBlockSize = 0"
    proof -
      have "(int (length (dest w)) + int m) mod int kBlockSize
          = (int (length (dest w)) mod int kBlockSize + int m) mod int kBlockSize"
        by (simp add: mod_add_left_eq)
      also have "\<dots> = (block_offset w + int m) mod int kBlockSize"
        using ok(3) bm by simp
      also have "\<dots> = 0" unfolding m(1) by simp
      finally show ?thesis .
    qed
    then have z: "(length (dest w) + m) mod kBlockSize = 0"
      by (metis of_nat_add of_nat_mod of_nat_eq_0_iff)
    show ?thesis
      unfolding pad(3) m_def [symmetric]
      using z zi m(2,3) by (simp add: Writer_ok_def kHeaderSize_def kBlockSize_def)
  next
    case full
    have zi: "int (length (dest w)) mod int kBlockSize = 0" using ok(3) full(1) by simp
    then have z: "length (dest w) mod kBlockSize = 0"
      by (metis of_nat_mod of_nat_eq_0_iff)
    show ?thesis
      unfolding full(2) using z zi by (simp add: Writer_ok_def kHeaderSize_def kBlockSize_def)
  qed
  from all show "Writer_ok (switch_block w)" by simp
  from all show "block_offset (switch_block w) \<le> int kBlockSize - int kHeaderSize" by simp
  from all show "0 \<le> block_offset (switch_block w)" by simp
  from all show "length (dest (switch_block w)) = length (dest w)
         \<or> (length (dest (switch_block w)) mod kBlockSize = 0
             \<and> length (dest w) < length (dest (switch_block w))
             \<and> length (dest (switch_block w)) < length (dest w) + 7)" by simp
  from all show "\<exists>pad. dest (switch_block w) = dest w @ pad" by simp
  from all show "int (length (dest (switch_block w)) mod kBlockSize) = block_offset (switch_block w)"
    by simp
qed


lemma fragment_length_fits:
  assumes "Writer_ok w"
  shows "fragment_length w ptr \<le> length ptr"
    and "length (dest (switch_block w)) mod kBlockSize + 7 + fragment_length w ptr \<le> kBlockSize"
    and "block_offset (switch_block w) + 7 + int (fragment_length w ptr) \<le> int kBlockSize"
proof -
  show "fragment_length w ptr \<le> length ptr" by (simp add: fragment_length_def Let_def)
  have a: "fragment_length w ptr \<le> nat (int kBlockSize - block_offset (switch_block w) - int kHeaderSize)"
    by (simp add: fragment_length_def Let_def)
  show b: "block_offset (switch_block w) + 7 + int (fragment_length w ptr) \<le> int kBlockSize"
    using a switch_block_ok(2) [OF assms] by (simp add: kHeaderSize_def)
  show "length (dest (switch_block w)) mod kBlockSize + 7 + fragment_length w ptr \<le> kBlockSize"
    using b switch_block_ok(6) [OF assms] by linarith
qed

lemma EmitPhysicalRecord_ok:
  assumes "Writer_ok w1" and "block_offset w1 + 7 + int (length frag) \<le> int kBlockSize"
  shows "Writer_ok (EmitPhysicalRecord w1 t frag)"
proof -
  have ok: "0 \<le> block_offset w1"
    "int (length (dest w1)) mod int kBlockSize = block_offset w1 mod int kBlockSize"
    using assms(1) by (simp_all add: Writer_ok_def)
  have "(int (length (dest w1)) + (7 + int (length frag))) mod int kBlockSize
      = (block_offset w1 + (7 + int (length frag))) mod int kBlockSize"
    using ok(2) by (metis mod_add_left_eq)
  then show ?thesis
    using ok(1) assms(2) by (simp add: Writer_ok_def EmitPhysicalRecord_def kHeaderSize_def ac_simps)
qed

lemma dest_EmitPhysicalRecord:
  "dest (EmitPhysicalRecord w1 t frag) = dest w1 @ record_header t frag @ frag"
  by (simp add: EmitPhysicalRecord_def)

lemma AddRecord_loop_ok:
  "Writer_ok w \<Longrightarrow>
   Writer_ok (AddRecord_loop w ptr bg) \<and> (\<exists>ext. dest (AddRecord_loop w ptr bg) = dest w @ ext)"
proof (induction w ptr bg rule: AddRecord_loop_induct)
  case (step w ptr bg)
  note ok = step.prems
  obtain pad where pad: "dest (switch_block w) = dest w @ pad"
    using switch_block_ok(5) [OF ok] by blast
  show ?case
  proof (cases "fragment_length w ptr < length ptr")
    case True
    let ?w2 = "EmitPhysicalRecord (switch_block w) (fragment_type bg False)
                (take (fragment_length w ptr) ptr)"
    have ok2: "Writer_ok ?w2"
      using switch_block_ok(1) [OF ok] fragment_length_fits(3) [OF ok, of ptr] True
      by (intro EmitPhysicalRecord_ok) simp_all
    have e: "AddRecord_loop w ptr bg = AddRecord_loop ?w2 (drop (fragment_length w ptr) ptr) False"
      using True by (subst AddRecord_loop_step) simp
    from step.IH [OF True ok2] obtain ext where
      "Writer_ok (AddRecord_loop ?w2 (drop (fragment_length w ptr) ptr) False)"
      "dest (AddRecord_loop ?w2 (drop (fragment_length w ptr) ptr) False) = dest ?w2 @ ext"
      by blast
    then show ?thesis unfolding e by (simp add: dest_EmitPhysicalRecord pad)
  next
    case False
    then have fl: "fragment_length w ptr = length ptr"
      using fragment_length_fits(1) [OF ok, of ptr] by simp
    have e: "AddRecord_loop w ptr bg = EmitPhysicalRecord (switch_block w) (fragment_type bg True) ptr"
      using False by (subst AddRecord_loop_step) simp
    have "Writer_ok (EmitPhysicalRecord (switch_block w) (fragment_type bg True) ptr)"
      using switch_block_ok(1) [OF ok] fragment_length_fits(3) [OF ok, of ptr] fl
      by (intro EmitPhysicalRecord_ok) simp_all
    then show ?thesis unfolding e by (simp add: dest_EmitPhysicalRecord pad)
  qed
qed


lemma reader_at_last_record_offset [simp]:
  "reader_at F p (r\<lparr>last_record_offset := x\<rparr>) = reader_at F p r"
  by (simp add: reader_at_def reader_at_block_def)

lemma reader_at_not_resyncing: "reader_at F p r \<Longrightarrow> \<not> resyncing r"
  by (auto simp: reader_at_def reader_at_block_def)

lemma fragment_type_small: "fragment_type bg en < 128" "fragment_type bg en \<noteq> kZeroType"
  by (simp_all add: fragment_type_def record_type_defs)

lemma take_record:
  "take (7 + length frag) (drop (length pre) (pre @ (record_header t frag @ frag) @ rest))
     = record_header t frag @ frag"
  by simp

lemma ReadRecord_loop_reads_AddRecord:
  assumes "Writer_ok w"
    and "dest (AddRecord_loop w ptr bg) @ post = F"
    and "reader_at F (length (dest w)) r"
  shows "\<exists>sc r'. ReadRecord_loop r (\<not> bg) scratch po fragment
            = (True, (if bg then ptr else scratch @ ptr), sc, r')
         \<and> reader_at F (length (dest (AddRecord_loop w ptr bg))) r'
         \<and> reporter r' = reporter r \<and> checksum r' = checksum r"
  using assms
proof (induction w ptr bg arbitrary: r scratch po fragment rule: AddRecord_loop_induct)
  case (step w ptr bg)
  note ok = step.prems(1)
  let ?w1 = "switch_block w"
  let ?fl = "fragment_length w ptr"
  let ?p1 = "length (dest ?w1)"
  have p1: "?p1 = length (dest w)
      \<or> (?p1 mod kBlockSize = 0 \<and> length (dest w) < ?p1 \<and> ?p1 < length (dest w) + 7)"
    using switch_block_ok(4) [OF ok] .
  show ?case
  proof (cases "?fl < length ptr")
    case True
    let ?frag = "take ?fl ptr"
    let ?t = "fragment_type bg False"
    let ?w2 = "EmitPhysicalRecord ?w1 ?t ?frag"
    have n: "length ?frag = ?fl" using True by simp
    have ok2: "Writer_ok ?w2"
      using switch_block_ok(1) [OF ok] fragment_length_fits(3) [OF ok, of ptr] True
      by (intro EmitPhysicalRecord_ok) simp_all
    have e: "AddRecord_loop w ptr bg = AddRecord_loop ?w2 (drop ?fl ptr) False"
      using True by (subst AddRecord_loop_step) simp
    obtain ext where ext: "dest (AddRecord_loop ?w2 (drop ?fl ptr) False) = dest ?w2 @ ext"
      using AddRecord_loop_ok [OF ok2] by blast
    have F: "F = dest ?w1 @ (record_header ?t ?frag @ ?frag) @ ext @ post"
      using step.prems(2) unfolding e ext by (simp add: dest_EmitPhysicalRecord)
    have rec: "take (7 + length ?frag) (drop ?p1 F) = record_header ?t ?frag @ ?frag"
      unfolding F by (rule take_record)
    have fit: "?p1 mod kBlockSize + 7 + length ?frag \<le> kBlockSize"
      using fragment_length_fits(2) [OF ok, of ptr] n by simp
    obtain r1 where r1: "ReadPhysicalRecord r fragment = (?t, ?frag, r1)"
      "reader_at F (?p1 + 7 + length ?frag) r1" "reporter r1 = reporter r" "checksum r1 = checksum r"
      using reader_at_physical [OF step.prems(3) p1 rec fit fragment_type_small(1)
          disjI1 [OF fragment_type_small(2)], of fragment]
      by blast
    have nr: "\<not> resyncing r1" using r1(2) by (rule reader_at_not_resyncing)
    have at2: "reader_at F (length (dest ?w2)) r1"
      using r1(2) by (simp add: dest_EmitPhysicalRecord ac_simps)
    have F2: "dest (AddRecord_loop ?w2 (drop ?fl ptr) False) @ post = F"
      using step.prems(2) unfolding e .
    show ?thesis
    proof (cases bg)
      case True
      have t: "?t = kFirstType" using True by (simp add: fragment_type_def)
      have l: "ReadRecord_loop r (\<not> bg) scratch po fragment
          = ReadRecord_loop r1 True ?frag
              (end_of_buffer_offset r1 - of_nat (length (rbuffer r1)) - of_nat kHeaderSize
                 - of_nat (length ?frag)) ?frag"
        using ReadRecord_loop_First [OF r1(1) [unfolded t] nr, of "\<not> bg" scratch po] True
        by simp
      from step.IH [OF \<open>?fl < length ptr\<close> ok2 F2 at2] obtain sc r' where
        "ReadRecord_loop r1 (\<not> False) ?frag
              (end_of_buffer_offset r1 - of_nat (length (rbuffer r1)) - of_nat kHeaderSize
                 - of_nat (length ?frag)) ?frag
           = (True, (if False then drop ?fl ptr else ?frag @ drop ?fl ptr), sc, r')"
        "reader_at F (length (dest (AddRecord_loop ?w2 (drop ?fl ptr) False))) r'"
        "reporter r' = reporter r1" "checksum r' = checksum r1"
        by blast
      then show ?thesis unfolding l e using True r1(3,4) by simp
    next
      case False
      have t: "?t = kMiddleType" using False by (simp add: fragment_type_def)
      have l: "ReadRecord_loop r (\<not> bg) scratch po fragment
          = ReadRecord_loop r1 True (scratch @ ?frag) po ?frag"
        using ReadRecord_loop_Middle [OF r1(1) [unfolded t] nr, of scratch po] False
        by simp
      from step.IH [OF \<open>?fl < length ptr\<close> ok2 F2 at2] obtain sc r' where
        "ReadRecord_loop r1 (\<not> False) (scratch @ ?frag) po ?frag
           = (True, (if False then drop ?fl ptr else (scratch @ ?frag) @ drop ?fl ptr), sc, r')"
        "reader_at F (length (dest (AddRecord_loop ?w2 (drop ?fl ptr) False))) r'"
        "reporter r' = reporter r1" "checksum r' = checksum r1"
        by blast
      then show ?thesis unfolding l e using False r1(3,4) by simp
    qed
  next
    case False
    then have fl: "?fl = length ptr"
      using fragment_length_fits(1) [OF ok, of ptr] by simp
    let ?t = "fragment_type bg True"
    let ?w2 = "EmitPhysicalRecord ?w1 ?t ptr"
    have e: "AddRecord_loop w ptr bg = ?w2"
      using False by (subst AddRecord_loop_step) simp
    have F: "F = dest ?w1 @ (record_header ?t ptr @ ptr) @ post"
      using step.prems(2) unfolding e by (simp add: dest_EmitPhysicalRecord)
    have rec: "take (7 + length ptr) (drop ?p1 F) = record_header ?t ptr @ ptr"
      unfolding F by (rule take_record)
    have fit: "?p1 mod kBlockSize + 7 + length ptr \<le> kBlockSize"
      using fragment_length_fits(2) [OF ok, of ptr] fl by simp
    obtain r1 where r1: "ReadPhysicalRecord r fragment = (?t, ptr, r1)"
      "reader_at F (?p1 + 7 + length ptr) r1" "reporter r1 = reporter r" "checksum r1 = checksum r"
      using reader_at_physical [OF step.prems(3) p1 rec fit fragment_type_small(1)
          disjI1 [OF fragment_type_small(2)], of fragment]
      by blast
    have nr: "\<not> resyncing r1" using r1(2) by (rule reader_at_not_resyncing)
    have at2: "reader_at F (length (dest ?w2)) r1"
      using r1(2) by (simp add: dest_EmitPhysicalRecord ac_simps)
    show ?thesis
    proof (cases bg)
      case True
      have t: "?t = kFullType" using True by (simp add: fragment_type_def)
      show ?thesis
        unfolding e
        using ReadRecord_loop_Full [OF r1(1) [unfolded t] nr, of "\<not> bg" scratch po] True at2 r1(3,4)
        by simp
    next
      case False
      have t: "?t = kLastType" using False by (simp add: fragment_type_def)
      show ?thesis
        unfolding e
        using ReadRecord_loop_Last [OF r1(1) [unfolded t] nr, of scratch po] False at2 r1(3,4)
        by simp
    qed
  qed
qed


lemma AddRecords_ok:
  "Writer_ok w \<Longrightarrow>
   Writer_ok (AddRecords w ps) \<and> (\<exists>ext. dest (AddRecords w ps) = dest w @ ext)"
proof (induction ps arbitrary: w)
  case Nil
  then show ?case by (simp add: AddRecords_def)
next
  case (Cons P ps)
  have s: "AddRecords w (P # ps) = AddRecords (AddRecord w P) ps" by (simp add: AddRecords_def)
  obtain e1 where 1: "Writer_ok (AddRecord w P)" "dest (AddRecord w P) = dest w @ e1"
    using AddRecord_loop_ok [OF Cons.prems, of P True] unfolding AddRecord_def by blast
  obtain e2 where 2: "Writer_ok (AddRecords (AddRecord w P) ps)"
    "dest (AddRecords (AddRecord w P) ps) = dest (AddRecord w P) @ e2"
    using Cons.IH [OF 1(1)] by blast
  show ?case unfolding s using 1 2 by simp
qed

lemma Writer_new_ok: "Writer_ok Writer_new"
  by (simp add: Writer_ok_def Writer_new_def)

lemma reader_at_initial_offset: "reader_at F p r \<Longrightarrow> initial_offset r = 0"
  by (auto simp: reader_at_def reader_at_block_def)

lemma ReadRecord_at: "reader_at F p r \<Longrightarrow> ReadRecord r = ReadRecord_loop r False [] 0 []"
  by (simp add: ReadRecord_def reader_at_initial_offset)

lemma ReadRecords_reads_AddRecords:
  assumes "Writer_ok w"
    and "dest (AddRecords w ps) @ post = F"
    and "reader_at F (length (dest w)) r"
  shows "\<exists>r'. ReadRecords (length ps) r = (ps, r')
         \<and> reader_at F (length (dest (AddRecords w ps))) r'
         \<and> reporter r' = reporter r \<and> checksum r' = checksum r"
  using assms
proof (induction ps arbitrary: w r)
  case Nil
  then show ?case by (simp add: AddRecords_def)
next
  case (Cons P ps)
  have s: "AddRecords w (P # ps) = AddRecords (AddRecord w P) ps" by (simp add: AddRecords_def)
  have ok1: "Writer_ok (AddRecord w P)"
    using AddRecord_loop_ok [OF Cons.prems(1), of P True] unfolding AddRecord_def by blast
  obtain ext where ext: "dest (AddRecords (AddRecord w P) ps) = dest (AddRecord w P) @ ext"
    using AddRecords_ok [OF ok1] by blast
  have F1: "dest (AddRecord_loop w P True) @ (ext @ post) = F"
    using Cons.prems(2) [unfolded s ext] by (simp add: AddRecord_def)
  obtain sc r1 where r1: "ReadRecord_loop r (\<not> True) [] 0 [] = (True, (if True then P else [] @ P), sc, r1)"
    "reader_at F (length (dest (AddRecord_loop w P True))) r1"
    "reporter r1 = reporter r" "checksum r1 = checksum r"
    using ReadRecord_loop_reads_AddRecord [OF Cons.prems(1) F1 Cons.prems(3), of "[]" 0 "[]"]
    by blast
  have rr: "ReadRecord r = (True, P, sc, r1)"
    using r1(1) ReadRecord_at [OF Cons.prems(3)] by simp
  have F2: "dest (AddRecords (AddRecord w P) ps) @ post = F"
    using Cons.prems(2) unfolding s .
  obtain r' where r': "ReadRecords (length ps) r1 = (ps, r')"
    "reader_at F (length (dest (AddRecords (AddRecord w P) ps))) r'"
    "reporter r' = reporter r1" "checksum r' = checksum r1"
    using Cons.IH [OF ok1 F2 r1(2) [folded AddRecord_def]] by blast
  show ?case unfolding s using rr r' r1(3,4) by simp
qed

lemma ReadRecord_at_end_of_file:
  assumes "reader_at F (length F) r"
  shows "\<exists>sc r'. ReadRecord r = (False, [], sc, r') \<and> reporter r' = reporter r"
proof -
  obtain k where k: "reader_at_block F k (length F) r"
    using assms unfolding reader_at_def by blast
  then have b: "rbuffer r = []" and f: "rfile r = []" and nr: "\<not> resyncing r"
    by (auto simp: reader_at_block_def)
  have short: "length (rbuffer r) < kHeaderSize" using b by (simp add: kHeaderSize_def)
  have "\<exists>r'. ReadPhysicalRecord r [] = (kEof, [], r') \<and> reporter r' = reporter r
      \<and> \<not> resyncing r'"
  proof (cases "eof r")
    case True
    then show ?thesis using short nr by (simp add: ReadPhysicalRecord_at_end)
  next
    case False
    show ?thesis
      using short False nr f
      by (simp add: ReadPhysicalRecord_refill ReadPhysicalRecord_at_end kBlockSize_def kHeaderSize_def)
  qed
  then obtain r' where r': "ReadPhysicalRecord r [] = (kEof, [], r')" "reporter r' = reporter r"
    "\<not> resyncing r'" by blast
  show ?thesis
    using ReadRecord_loop_Eof [OF r'(1,3), of False "[]" 0] r'(2) ReadRecord_at [OF assms]
    by simp
qed

text \<open>C1: for every sequence of payloads appended with \<open>AddRecord\<close> to a fresh writer,
  a reader over the resulting file with \<open>initial_offset = 0\<close> (with or without checksum
  verification, with or without a reporter) returns exactly those payloads, in order, from
  successive \<open>ReadRecord\<close> calls; nothing is reported as corrupt, and the next call
  returns \<open>false\<close>.\<close>

theorem wal_roundtrip:
  "(case ReadRecords (length payloads)
           (Reader_new (dest (AddRecords Writer_new payloads)) rep cs 0) of
      (records, r) \<Rightarrow>
        records = payloads \<and> reporter r = rep
        \<and> (case ReadRecord r of
               (got, record, scratch, r') \<Rightarrow> \<not> got \<and> reporter r' = rep))"
proof -
  let ?F = "dest (AddRecords Writer_new payloads)"
  have at0: "reader_at ?F (length (dest Writer_new)) (Reader_new ?F rep cs 0)"
    using reader_at_new [of ?F rep cs] by (simp add: Writer_new_def)
  obtain r where r: "ReadRecords (length payloads) (Reader_new ?F rep cs 0) = (payloads, r)"
    "reader_at ?F (length ?F) r" "reporter r = reporter (Reader_new ?F rep cs 0)"
    using ReadRecords_reads_AddRecords [OF Writer_new_ok _ at0, of payloads "[]"] by auto
  obtain sc r' where e: "ReadRecord r = (False, [], sc, r')" "reporter r' = reporter r"
    using ReadRecord_at_end_of_file [OF r(2)] by blast
  show ?thesis using r e by (simp add: Reader_new_def)
qed

theorem wal_roundtrip_witness:
  "(case ReadRecords (length [[1, 2], [], [3 :: byte]])
           (Reader_new (dest (AddRecords Writer_new [[1, 2], [], [3]])) (Some []) True 0) of
      (records, r) \<Rightarrow>
        records = [[1, 2], [], [3]] \<and> reporter r = Some []
        \<and> (case ReadRecord r of
               (got, record, scratch, r') \<Rightarrow> \<not> got \<and> reporter r' = Some []))"
  by (rule wal_roundtrip)

section \<open>The fragmentation scenario: layout and reading\<close>

lemma scenario_layout:
  assumes "length p1 = 1000" and "length p2 = 97270" and "length p3 = 8000"
  shows "dest (AddRecords Writer_new [p1, p2, p3]) = scenario_file p1 p2 p3"
proof -
  have 1: "AddRecord Writer_new p1 = \<lparr>dest = record_header kFullType p1 @ p1, block_offset = 1007\<rparr>"
    unfolding AddRecord_def
    by (subst AddRecord_loop_step)
       (simp add: fragment_length_def switch_block_def Writer_new_def Let_def kBlockSize_def
          kHeaderSize_def assms EmitPhysicalRecord_def fragment_type_def)
  have 2: "AddRecord \<lparr>dest = d, block_offset = 1007\<rparr> p2
      = \<lparr>dest = d @ (record_header kFirstType (take 31754 p2) @ take 31754 p2)
           @ (record_header kMiddleType (take 32761 (drop 31754 p2)) @ take 32761 (drop 31754 p2))
           @ (record_header kLastType (drop 64515 p2) @ drop 64515 p2),
         block_offset = 32762\<rparr>" for d
    unfolding AddRecord_def
    apply (subst AddRecord_loop_step)
    apply (simp add: fragment_length_def switch_block_def Let_def kBlockSize_def
          kHeaderSize_def assms EmitPhysicalRecord_def fragment_type_def)
    apply (subst AddRecord_loop_step)
    apply (simp add: fragment_length_def switch_block_def Let_def kBlockSize_def
          kHeaderSize_def assms EmitPhysicalRecord_def fragment_type_def)
    apply (subst AddRecord_loop_step)
    apply (simp add: fragment_length_def switch_block_def Let_def kBlockSize_def
          kHeaderSize_def assms EmitPhysicalRecord_def fragment_type_def)
    done
  have 3: "AddRecord \<lparr>dest = d, block_offset = 32762\<rparr> p3
      = \<lparr>dest = d @ [0, 0, 0, 0, 0, 0] @ (record_header kFullType p3 @ p3), block_offset = 8007\<rparr>" for d
    unfolding AddRecord_def
    by (subst AddRecord_loop_step)
       (simp add: fragment_length_def switch_block_def Let_def kBlockSize_def
          kHeaderSize_def assms EmitPhysicalRecord_def fragment_type_def)
  show ?thesis
    by (simp add: AddRecords_def 1 2 3 scenario_file_def)
qed


lemma record_at:
  assumes "F = pre @ (record_header t frag @ frag) @ rest" and "length pre = p"
  shows "take (7 + length frag) (drop p F) = record_header t frag @ frag"
  unfolding assms(1) assms(2) [symmetric] by (rule take_record)

lemma scenario_physical:
  assumes "length p1 = 1000" and "length p2 = 97270" and "length p3 = 8000"
  shows "ReadPhysicalRecords 5 (Reader_new (scenario_file p1 p2 p3) rep cs 0) []
     = [(kFullType, p1), (kFirstType, take 31754 p2),
        (kMiddleType, take 32761 (drop 31754 p2)), (kLastType, drop 64515 p2), (kFullType, p3)]"
proof -
  let ?F = "scenario_file p1 p2 p3"
  let ?a = "take 31754 p2" and ?b = "take 32761 (drop 31754 p2)" and ?c = "drop 64515 p2"
  have la: "length ?a = 31754" and lb: "length ?b = 32761" and lc: "length ?c = 32755"
    using assms by simp_all
  have t: "kFullType < 128" "kFirstType < 128" "kMiddleType < 128" "kLastType < 128"
    "kFullType \<noteq> kZeroType" "kFirstType \<noteq> kZeroType" "kMiddleType \<noteq> kZeroType"
    "kLastType \<noteq> kZeroType"
    by (simp_all add: record_type_defs)
  have rec1: "take (7 + length p1) (drop 0 ?F) = record_header kFullType p1 @ p1"
    by (rule record_at [where pre = "[]"]) (simp_all add: scenario_file_def)
  have rec2: "take (7 + length ?a) (drop 1007 ?F) = record_header kFirstType ?a @ ?a"
    by (rule record_at [where pre = "record_header kFullType p1 @ p1"])
       (simp_all add: scenario_file_def assms)
  have rec3: "take (7 + length ?b) (drop 32768 ?F) = record_header kMiddleType ?b @ ?b"
    by (rule record_at [where pre = "(record_header kFullType p1 @ p1)
          @ (record_header kFirstType ?a @ ?a)"])
       (simp_all add: scenario_file_def assms)
  have rec4: "take (7 + length ?c) (drop 65536 ?F) = record_header kLastType ?c @ ?c"
    by (rule record_at [where pre = "(record_header kFullType p1 @ p1)
          @ (record_header kFirstType ?a @ ?a) @ (record_header kMiddleType ?b @ ?b)"])
       (simp_all add: scenario_file_def assms)
  have rec5: "take (7 + length p3) (drop 98304 ?F) = record_header kFullType p3 @ p3"
    by (rule record_at [where pre = "(record_header kFullType p1 @ p1)
          @ (record_header kFirstType ?a @ ?a) @ (record_header kMiddleType ?b @ ?b)
          @ (record_header kLastType ?c @ ?c) @ [0, 0, 0, 0, 0, 0]" and rest = "[]"])
       (simp_all add: scenario_file_def assms)
  obtain r1 where r1: "ReadPhysicalRecord (Reader_new ?F rep cs 0) [] = (kFullType, p1, r1)"
    "reader_at ?F (0 + 7 + length p1) r1"
    using reader_at_physical [OF reader_at_new [of ?F rep cs] _ rec1 _ t(1) disjI1 [OF t(5)], of "[]"]
    by (auto simp: assms kBlockSize_def)
  obtain r2 where r2: "ReadPhysicalRecord r1 p1 = (kFirstType, ?a, r2)"
    "reader_at ?F (1007 + 7 + length ?a) r2"
    using reader_at_physical [OF r1(2) _ rec2 _ t(2) disjI1 [OF t(6)], of p1]
    by (auto simp: assms kBlockSize_def)
  obtain r3 where r3: "ReadPhysicalRecord r2 ?a = (kMiddleType, ?b, r3)"
    "reader_at ?F (32768 + 7 + length ?b) r3"
    using reader_at_physical [OF r2(2) _ rec3 _ t(3) disjI1 [OF t(7)], of ?a]
    by (auto simp: assms kBlockSize_def)
  obtain r4 where r4: "ReadPhysicalRecord r3 ?b = (kLastType, ?c, r4)"
    "reader_at ?F (65536 + 7 + length ?c) r4"
    using reader_at_physical [OF r3(2) _ rec4 _ t(4) disjI1 [OF t(8)], of ?b]
    by (auto simp: assms kBlockSize_def)
  obtain r5 where r5: "ReadPhysicalRecord r4 ?c = (kFullType, p3, r5)"
    using reader_at_physical [OF r4(2) _ rec5 _ t(1) disjI1 [OF t(5)], of ?c]
    by (auto simp: assms kBlockSize_def)
  have five: "(5 :: nat) = Suc (Suc (Suc (Suc (Suc 0))))" by simp
  show ?thesis
    unfolding five by (simp add: r1(1) r2(1) r3(1) r4(1) r5)
qed


text \<open>C4 (as amended): appending payloads of 1000, 97270 and 8000 bytes to a fresh writer
  stores the second payload as exactly three physical fragments, First of 31754 bytes
  (what is left of the first block after the 1007 bytes of the first record and the
  header), Middle of 32761 bytes and Last of 32755 bytes; the reader sees these five
  physical records, and \<open>ReadRecord\<close> returns exactly the three payloads, in order, and
  then the end of the input.\<close>

theorem wal_fragmentation_scenario:
  assumes "length p1 = 1000" and "length p2 = 97270" and "length p3 = 8000"
  shows "dest (AddRecords Writer_new [p1, p2, p3]) = scenario_file p1 p2 p3
     \<and> ReadPhysicalRecords 5 (Reader_new (dest (AddRecords Writer_new [p1, p2, p3])) rep cs 0) []
         = [(kFullType, p1), (kFirstType, take 31754 p2),
            (kMiddleType, take 32761 (drop 31754 p2)), (kLastType, drop 64515 p2), (kFullType, p3)]
     \<and> take 31754 p2 @ take 32761 (drop 31754 p2) @ drop 64515 p2 = p2
     \<and> length (take 31754 p2) = 31754 \<and> length (take 32761 (drop 31754 p2)) = 32761
     \<and> length (drop 64515 p2) = 32755
     \<and> (case ReadRecords 3 (Reader_new (dest (AddRecords Writer_new [p1, p2, p3])) rep cs 0) of
           (records, r) \<Rightarrow> records = [p1, p2, p3] \<and> fst (ReadRecord r) = False)"
proof -
  let ?F = "dest (AddRecords Writer_new [p1, p2, p3])"
  have lay: "?F = scenario_file p1 p2 p3" using assms by (rule scenario_layout)
  have phys: "ReadPhysicalRecords 5 (Reader_new ?F rep cs 0) []
         = [(kFullType, p1), (kFirstType, take 31754 p2),
            (kMiddleType, take 32761 (drop 31754 p2)), (kLastType, drop 64515 p2), (kFullType, p3)]"
    unfolding lay using assms by (rule scenario_physical)
  have "take 32761 (drop 31754 p2) @ drop 64515 p2 = drop 31754 p2"
    using append_take_drop_id [of 32761 "drop 31754 p2"] by simp
  then have cat: "take 31754 p2 @ take 32761 (drop 31754 p2) @ drop 64515 p2 = p2" by simp
  have at0: "reader_at ?F (length (dest Writer_new)) (Reader_new ?F rep cs 0)"
    using reader_at_new [of ?F rep cs] by (simp add: Writer_new_def)
  have three: "(3 :: nat) = length [p1, p2, p3]" by simp
  obtain r where r: "ReadRecords 3 (Reader_new ?F rep cs 0) = ([p1, p2, p3], r)"
    "reader_at ?F (length ?F) r"
    unfolding three
    using ReadRecords_reads_AddRecords [OF Writer_new_ok _ at0, of "[p1, p2, p3]" "[]"] by auto
  obtain sc r' where e: "ReadRecord r = (False, [], sc, r')"
    using ReadRecord_at_end_of_file [OF r(2)] by blast
  show ?thesis using lay phys cat r(1) e assms by simp
qed

theorem wal_fragmentation_scenario_witness:
  "length (replicate 1000 (0 :: byte)) = 1000 \<and> length (replicate 97270 (0 :: byte)) = 97270
   \<and> length (replicate 8000 (0 :: byte)) = 8000
   \<and> dest (AddRecords Writer_new [replicate 1000 0, replicate 97270 0, replicate 8000 0])
       = scenario_file (replicate 1000 0) (replicate 97270 0) (replicate 8000 0)
   \<and> fst (ReadRecords 3
         (Reader_new (dest (AddRecords Writer_new [replicate 1000 0, replicate 97270 0, replicate 8000 0]))
            None True 0))
       = [replicate 1000 0, replicate 97270 0, replicate 8000 0]"
proof -
  have l: "length (replicate 1000 (0 :: byte)) = 1000" "length (replicate 97270 (0 :: byte)) = 97270"
    "length (replicate 8000 (0 :: byte)) = 8000" by simp_all
  from wal_fragmentation_scenario [OF l, of None True]
  have "dest (AddRecords Writer_new [replicate 1000 0, replicate 97270 0, replicate 8000 0])
       = scenario_file (replicate 1000 0) (replicate 97270 0) (replicate 8000 0)"
    and "fst (ReadRecords 3
         (Reader_new (dest (AddRecords Writer_new [replicate 1000 0, replicate 97270 0, replicate 8000 0]))
            None True 0))
       = [replicate 1000 0, replicate 97270 0, replicate 8000 0]"
    by (auto split: prod.splits)
  then show ?thesis using l by blast
qed

text \<open>C4 as stated fails: for three payloads of zero bytes of the sizes of the scenario,
  the physical records in the file have payload sizes 1000, 31754, 32761, 32755 and 8000,
  not 1000, 32761, 32761, 31748 and 8000.\<close>

theorem wal_fragmentation_sizes_differ:
  "map (\<lambda>(t, f). (t, length f))
     (ReadPhysicalRecords 5
        (Reader_new (dest (AddRecords Writer_new [replicate 1000 0, replicate 97270 0, replicate 8000 0]))
           None True 0) [])
     = [(1, 1000), (2, 31754), (3, 32761), (4, 32755), (1, 8000)]
   \<and> map (\<lambda>(t, f). (t, length f))
     (ReadPhysicalRecords 5
        (Reader_new (dest (AddRecords Writer_new [replicate 1000 0, replicate 97270 0, replicate 8000 0]))
           None True 0) [])
     \<noteq> [(1, 1000), (2, 32761), (3, 32761), (4, 31748), (1, 8000)]"
proof -
  have l: "length (replicate 1000 (0 :: byte)) = 1000" "length (replicate 97270 (0 :: byte)) = 97270"
    "length (replicate 8000 (0 :: byte)) = 8000" by simp_all
  have lay: "dest (AddRecords Writer_new [replicate 1000 0, replicate 97270 0, replicate 8000 0])
      = scenario_file (replicate 1000 0) (replicate 97270 0) (replicate 8000 0)"
    using l by (rule scenario_layout)
  have "map (\<lambda>(t, f). (t, length f))
     (ReadPhysicalRecords 5
        (Reader_new (dest (AddRecords Writer_new [replicate 1000 0, replicate 97270 0, replicate 8000 0]))
           None True 0) [])
     = [(1, 1000), (2, 31754), (3, 32761), (4, 32755), (1, 8000)]"
    unfolding lay scenario_physical [OF l]
    by (simp add: record_type_defs)
  then show ?thesis by simp
qed

section \<open>The LRU cache\<close>

subsection \<open>A shard of capacity 0\<close>

lemma evict_loop_idle: "\<not> (usage c > capacity c \<and> lru c \<noteq> []) \<Longrightarrow> evict_loop c = Some c"
  by (subst evict_loop.simps) auto

lemma HandleTable_Lookup_new: "HandleTable_Lookup hp HandleTable_new k h = Some None"
proof -
  have "(h AND 3) \<le> 3" by (rule word_and_le1)
  then have "unat (h AND 3) < 4" by (simp add: word_le_nat_alt)
  then show ?thesis
    by (simp add: HandleTable_Lookup_def FindPointer_def HandleTable_new_def bucket_of_def Let_def)
qed

lemma HandleTable_Remove_new:
  "HandleTable_Remove hp HandleTable_new k h = Some (None, HandleTable_new)"
proof -
  have "(h AND 3) \<le> 3" by (rule word_and_le1)
  then have "unat (h AND 3) < 4" by (simp add: word_le_nat_alt)
  then show ?thesis
    by (simp add: HandleTable_Remove_def FindPointer_def HandleTable_new_def bucket_of_def Let_def)
qed

text \<open>C10: a shard of capacity 0 in which nothing is cached: the table is as
  constructed and the usage is 0.  That is so in every state of such a shard, since the
  constructor makes it so and the conclusion gives it back after the insert, after a lookup
  or an erase of any key, and after the release.  \<open>Insert\<close> returns a handle to a newly
  allocated entry with \<open>refs = 1\<close> and \<open>in_cache = false\<close> and leaves the table, both
  lists, the usage and the record of deleter calls as they were; a lookup of the same key
  and hash (of any key and hash) then misses and changes nothing, and so does an erase;
  releasing the handle calls the deleter on the key and value and frees the entry, again
  leaving table, lists and usage as they were.\<close>

theorem zero_capacity_insert:
  assumes "capacity c = 0" and "usage c = 0" and "cache_table c = HandleTable_new"
  shows "\<exists>c1 c2.
     LRUCache_Insert c k h v chg del = Some (next_addr c, c1)
     \<and> cache_table c1 = cache_table c \<and> lru c1 = lru c \<and> in_use c1 = in_use c
     \<and> usage c1 = 0 \<and> capacity c1 = 0 \<and> deleted c1 = deleted c
     \<and> heap c1 (next_addr c)
         = Some \<lparr>hvalue = v, deleter = del, charge = chg, key = k, in_cache = False,
                 refs = 1, hash = h\<rparr>
     \<and> LRUCache_Lookup c1 k h = Some (None, c1)
     \<and> (\<forall>k' h'. LRUCache_Lookup c1 k' h' = Some (None, c1))
     \<and> (\<forall>k' h'. LRUCache_Erase c1 k' h' = Some c1)
     \<and> LRUCache_Release c1 (next_addr c) = Some c2
     \<and> heap c2 (next_addr c) = None
     \<and> deleted c2 = deleted c1 @ [(del, k, v)]
     \<and> cache_table c2 = cache_table c \<and> lru c2 = lru c \<and> in_use c2 = in_use c
     \<and> usage c2 = 0 \<and> capacity c2 = 0"
proof -
  let ?e = "next_addr c"
  let ?entry = "\<lparr>hvalue = v, deleter = del, charge = chg, key = k, in_cache = False,
                 refs = 1, hash = h\<rparr>"
  let ?c1 = "c\<lparr>heap := (heap c)(?e \<mapsto> ?entry), next_addr := ?e + 1\<rparr>"
  let ?c2 = "?c1\<lparr>deleted := deleted ?c1 @ [(del, k, v)], heap := (heap ?c1)(?e := None)\<rparr>"
  have ins: "LRUCache_Insert c k h v chg del = Some (?e, ?c1)"
    using assms(1,2) by (simp add: LRUCache_Insert_def Insert_link_def Let_def evict_loop_idle)
  have look: "LRUCache_Lookup ?c1 k' h' = Some (None, ?c1)" for k' h'
    using assms(3) by (simp add: LRUCache_Lookup_def HandleTable_Lookup_new)
  have erase: "LRUCache_Erase ?c1 k' h' = Some ?c1" for k' h'
    using assms(3) by (simp add: LRUCache_Erase_def HandleTable_Remove_new FinishErase_def)
  have rel: "LRUCache_Release ?c1 ?e = Some ?c2"
    by (simp add: LRUCache_Release_def Unref_def Let_def)
  show ?thesis
    apply (rule exI [of _ ?c1])
    apply (rule exI [of _ ?c2])
    using ins look erase rel assms apply simp
    done
qed

theorem zero_capacity_insert_witness:
  "capacity (LRUCache_new 0) = 0 \<and> usage (LRUCache_new 0) = 0
   \<and> cache_table (LRUCache_new 0) = HandleTable_new
   \<and> (\<exists>c1 c2.
     LRUCache_Insert (LRUCache_new 0) [1] 5 7 3 9 = Some (next_addr (LRUCache_new 0), c1)
     \<and> cache_table c1 = cache_table (LRUCache_new 0) \<and> lru c1 = lru (LRUCache_new 0)
     \<and> in_use c1 = in_use (LRUCache_new 0)
     \<and> usage c1 = 0 \<and> capacity c1 = 0 \<and> deleted c1 = deleted (LRUCache_new 0)
     \<and> heap c1 (next_addr (LRUCache_new 0))
         = Some \<lparr>hvalue = 7, deleter = 9, charge = 3, key = [1], in_cache = False,
                 refs = 1, hash = 5\<rparr>
     \<and> LRUCache_Lookup c1 [1] 5 = Some (None, c1)
     \<and> (\<forall>k' h'. LRUCache_Lookup c1 k' h' = Some (None, c1))
     \<and> (\<forall>k' h'. LRUCache_Erase c1 k' h' = Some c1)
     \<and> LRUCache_Release c1 (next_addr (LRUCache_new 0)) = Some c2
     \<and> heap c2 (next_addr (LRUCache_new 0)) = None
     \<and> deleted c2 = deleted c1 @ [(9, [1], 7)]
     \<and> cache_table c2 = cache_table (LRUCache_new 0) \<and> lru c2 = lru (LRUCache_new 0)
     \<and> in_use c2 = in_use (LRUCache_new 0)
     \<and> usage c2 = 0 \<and> capacity c2 = 0)"
proof -
  have a: "capacity (LRUCache_new 0) = 0" "usage (LRUCache_new 0) = 0"
    "cache_table (LRUCache_new 0) = HandleTable_new"
    by (simp_all add: LRUCache_new_def)
  show ?thesis
    using zero_capacity_insert [OF a, of "[1]" 5 7 3 9] a by blast
qed

subsection \<open>Eviction\<close>



















lemma bucket_of_less: "l \<noteq> 0 \<Longrightarrow> bucket_of l h < unat l"
proof -
  assume l: "l \<noteq> 0"
  have "h AND (l - 1) \<le> l - 1" by (rule word_and_le1)
  moreover have "l - 1 < l" using l by (simp add: word_less_nat_alt unat_minus_one unat_gt_0 [symmetric] word_neq_0_conv)
  ultimately show ?thesis unfolding bucket_of_def by (simp add: word_le_nat_alt word_less_nat_alt)
qed






lemma table_live:
  assumes "table_ok hp t" and "e \<in> set (concat (list_t t))"
  shows "\<exists>h. hp e = Some h"
proof -
  from assms(2) obtain chain where c: "chain \<in> set (list_t t)" "e \<in> set chain" by auto
  then obtain i where "i < length (list_t t)" "list_t t ! i = chain"
    by (auto simp: in_set_conv_nth)
  then show ?thesis using assms(1) c(2) unfolding table_ok_def by fastforce
qed








lemma LRU_inv_new: "LRU_inv (LRUCache_new cap)"
proof -
  have "bucket_of 4 h < 4" for h using bucket_of_less [of 4 h] by simp
  then show ?thesis
    by (simp add: LRU_inv_def table_ok_def LRUCache_new_def HandleTable_new_def)
qed






lemma less_4: "(i::nat) < 4 \<longleftrightarrow> i = 0 \<or> i = 1 \<or> i = 2 \<or> i = 3"
  by auto






end
